theory Spec2Isabelle
  imports Main "HOL-Library.Multiset"
begin

section \<open>The priority queue of queue.go\<close>

text \<open>
  An \<open>Item\<close> carries the payload, the priority (an int64, only ever compared) and the
  position in the heap slice, which \<open>Swap\<close>, \<open>Push\<close> and \<open>Pop\<close> keep up to date.
  The Go field \<open>value\<close> is called \<open>ivalue\<close> here. There is no sequence number.
  The slice holds pointers; nothing writes \<open>value\<close> or \<open>priority\<close> after an
  item is built, so the items are held by value. Slice positions are natural numbers:
  \<open>(j - 1) / 2\<close> truncates to 0 at \<open>j = 0\<close> in Go as it does on \<open>nat\<close>.
\<close>

record Item =
  ivalue :: string
  priority :: int
  index :: int

type_synonym PriorityQueue = "Item list"

definition Len :: "PriorityQueue \<Rightarrow> nat" where
  "Len pq = length pq"

definition Less :: "PriorityQueue \<Rightarrow> nat \<Rightarrow> nat \<Rightarrow> bool" where
  "Less pq i j = (priority (pq ! i) > priority (pq ! j))"

definition Swap :: "PriorityQueue \<Rightarrow> nat \<Rightarrow> nat \<Rightarrow> PriorityQueue" where
  "Swap pq i j =
     (let a = pq ! i; b = pq ! j;
          pq1 = pq[i := b, j := a];
          pq2 = pq1[i := (pq1 ! i)\<lparr>index := int i\<rparr>]
      in pq2[j := (pq2 ! j)\<lparr>index := int j\<rparr>])"

definition Push :: "PriorityQueue \<Rightarrow> Item \<Rightarrow> PriorityQueue" where
  "Push pq item = pq @ [item\<lparr>index := int (length pq)\<rparr>]"

text \<open>\<open>Pop\<close> is only called on a non-empty slice (by \<open>heap_Pop\<close> below).\<close>

definition Pop :: "PriorityQueue \<Rightarrow> Item \<times> PriorityQueue" where
  "Pop old = (let n = length old in ((old ! (n - 1))\<lparr>index := - 1\<rparr>, take (n - 1) old))"

subsection \<open>Go's container/heap, as the queue uses it\<close>

text \<open>
  \<open>up\<close>, \<open>down\<close>, \<open>heap.Init\<close>, \<open>heap.Push\<close> and \<open>heap.Pop\<close> of the Go standard
  library, over the \<open>Len\<close>, \<open>Less\<close>, \<open>Swap\<close>, \<open>Push\<close> and \<open>Pop\<close> above.
\<close>

function up :: "PriorityQueue \<Rightarrow> nat \<Rightarrow> PriorityQueue" where
  "up h j =
     (let i = (j - 1) div 2 in
      if i = j \<or> \<not> Less h j i then h else up (Swap h i j) i)"
  by pat_completeness auto
termination
  by (relation "measure (\<lambda>(h, j). j)") auto

function down :: "PriorityQueue \<Rightarrow> nat \<Rightarrow> nat \<Rightarrow> PriorityQueue" where
  "down h i n =
     (let j1 = 2 * i + 1 in
      if j1 \<ge> n then h
      else let j2 = j1 + 1;
               j = (if j2 < n \<and> Less h j2 j1 then j2 else j1) in
           if \<not> Less h j i then h else down (Swap h i j) j n)"
  by pat_completeness auto
termination
  by (relation "measure (\<lambda>(h, i, n). n - i)") auto

declare up.simps [simp del] down.simps [simp del]

definition heap_Init :: "PriorityQueue \<Rightarrow> PriorityQueue" where
  "heap_Init h = (let n = Len h in foldl (\<lambda>h i. down h i n) h (rev [0 ..< n div 2]))"

definition heap_Push :: "PriorityQueue \<Rightarrow> Item \<Rightarrow> PriorityQueue" where
  "heap_Push h x = (let h1 = Push h x in up h1 (Len h1 - 1))"

definition heap_Pop :: "PriorityQueue \<Rightarrow> Item \<times> PriorityQueue" where
  "heap_Pop h = (let n = Len h - 1 in Pop (down (Swap h 0 n) 0 n))"

subsection \<open>The routed queue\<close>

text \<open>
  \<open>queueMap\<close> maps a route to its heap. \<open>notEmpty\<close> maps a route to its condition
  variable, of which the model keeps the lock it was built on: the queue's own
  \<open>queueLock\<close>, or a mutex allocated for it alone.
\<close>

datatype locker = QueueLock | FreshMutex

record PriorityQueueWithRouting =
  queueMap :: "string \<rightharpoonup> PriorityQueue"
  notEmpty :: "string \<rightharpoonup> locker"

definition NewPriorityQueueWithRouting :: PriorityQueueWithRouting where
  "NewPriorityQueueWithRouting = \<lparr>queueMap = Map.empty, notEmpty = Map.empty\<rparr>"

definition Enqueue :: "string \<Rightarrow> Item \<Rightarrow> PriorityQueueWithRouting \<Rightarrow> PriorityQueueWithRouting" where
  "Enqueue route item pq =
     (let queue = (case queueMap pq route of Some q \<Rightarrow> q | None \<Rightarrow> heap_Init []);
          queue' = heap_Push queue item;
          conds = (case notEmpty pq route of
                     Some c \<Rightarrow> notEmpty pq
                   | None \<Rightarrow> (notEmpty pq)(route \<mapsto> QueueLock))
      in pq\<lparr>queueMap := (queueMap pq)(route \<mapsto> queue'), notEmpty := conds\<rparr>)"

text \<open>
  One pass of the loop of \<open>Dequeue\<close>, run by itself: either the route has an item and
  the call returns it, or the call registers a condition variable (on a mutex of its
  own when the route has none yet) and waits, which a sequential run reports as
  \<open>Blocked\<close>.
\<close>

datatype dequeue_result = Returned Item | Blocked

definition Dequeue :: "string \<Rightarrow> PriorityQueueWithRouting \<Rightarrow> dequeue_result \<times> PriorityQueueWithRouting" where
  "Dequeue route pq =
     (case queueMap pq route of
        Some queue \<Rightarrow>
          if Len queue > 0
          then (let (item, queue') = heap_Pop queue
                in (Returned item, pq\<lparr>queueMap := (queueMap pq)(route \<mapsto> queue')\<rparr>))
          else (Blocked, (case notEmpty pq route of
                            Some c \<Rightarrow> pq
                          | None \<Rightarrow> pq\<lparr>notEmpty := (notEmpty pq)(route \<mapsto> FreshMutex)\<rparr>))
      | None \<Rightarrow>
          (Blocked, (case notEmpty pq route of
                       Some c \<Rightarrow> pq
                     | None \<Rightarrow> pq\<lparr>notEmpty := (notEmpty pq)(route \<mapsto> FreshMutex)\<rparr>)))"

definition Length :: "string \<Rightarrow> PriorityQueueWithRouting \<Rightarrow> nat" where
  "Length route pq = (case queueMap pq route of None \<Rightarrow> 0 | Some queue \<Rightarrow> Len queue)"

text \<open>
  A serialized history of calls on one queue. \<open>run\<close> performs them in order and
  collects, with its route, what each \<open>Dequeue\<close> returned; it is \<open>None\<close> when a
  \<open>Dequeue\<close> finds its route empty, since that call would wait for a later
  \<open>Enqueue\<close>.
\<close>

datatype call = Enq string Item | Deq string

fun run :: "call list \<Rightarrow> PriorityQueueWithRouting \<Rightarrow>
            ((string \<times> Item) list \<times> PriorityQueueWithRouting) option" where
  "run [] pq = Some ([], pq)"
| "run (Enq route item # cs) pq = run cs (Enqueue route item pq)"
| "run (Deq route # cs) pq =
     (case Dequeue route pq of
        (Blocked, pq') \<Rightarrow> None
      | (Returned item, pq') \<Rightarrow>
          (case run cs pq' of
             None \<Rightarrow> None
           | Some (out, pq'') \<Rightarrow> Some ((route, item) # out, pq'')))"

section \<open>The wire protocol (protocol.go)\<close>

subsection \<open>Errors and results\<close>

text \<open>
  The error values that travel through the server: \<open>ErrInvalidSyntax\<close> and
  \<open>ErrQuit\<close> of the repository, its two error structs of error.go, the errors of
  \<open>io\<close> and \<open>bufio\<close>, and strconv's \<open>NumError\<close> with its function name, the text that
  failed to parse and the cause. A call ends with a value, with an error, or in a
  runtime panic, which nothing in the repository recovers.
\<close>

datatype numerr = ErrSyntax | ErrRange

datatype error =
    ErrInvalidSyntax
  | ErrQuit
  | wrongNumberOfArgsError string
  | wrongCommandError string "string list"
  | EOF
  | ErrUnexpectedEOF
  | ErrBufferFull
  | NumError string string numerr

datatype 'a result = Ok 'a | Err error | Panic

definition CR :: char where
  "CR = CHR 0x0D"

definition LF :: char where
  "LF = CHR 0x0A"

definition CRLF :: string where
  "CRLF = [CR, LF]"

subsection \<open>strconv, as the repository uses it\<close>

text \<open>
  \<open>strconv.ParseUint\<close> and \<open>strconv.ParseInt\<close> of the Go standard library at base 10
  and bit size 64: an optional sign, then decimal digits only; the loop stops with a
  range error as soon as the value leaves the unsigned 64-bit range, before it looks at
  the rest. \<open>strconv.Atoi\<close> on a 64-bit platform returns the same values and causes
  (its short-input fast path computes what \<open>ParseInt\<close> does), under its own name.
\<close>

definition is_digit :: "char \<Rightarrow> bool" where
  "is_digit c = (48 \<le> (of_char c :: int) \<and> (of_char c :: int) \<le> 57)"

definition maxUint64 :: int where
  "maxUint64 = 2 ^ 64 - 1"

fun ParseUint_loop :: "string \<Rightarrow> int \<Rightarrow> numerr + int" where
  "ParseUint_loop [] n = Inr n"
| "ParseUint_loop (c # cs) n =
     (if \<not> is_digit c then Inl ErrSyntax
      else if n \<ge> maxUint64 div 10 + 1 then Inl ErrRange
      else let n1 = n * 10 + (of_char c - 48) in
           if n1 > maxUint64 then Inl ErrRange else ParseUint_loop cs n1)"

definition ParseUint :: "string \<Rightarrow> numerr + int" where
  "ParseUint s = (if s = [] then Inl ErrSyntax else ParseUint_loop s 0)"

definition ParseInt_as :: "string \<Rightarrow> string \<Rightarrow> error + int" where
  "ParseInt_as fn s =
     (if s = [] then Inl (NumError fn s ErrSyntax)
      else let neg = (hd s = CHR ''-'');
               s1 = (if hd s = CHR ''+'' \<or> hd s = CHR ''-'' then tl s else s)
           in case ParseUint s1 of
                Inl e \<Rightarrow> Inl (NumError fn s e)
              | Inr un \<Rightarrow>
                  if \<not> neg \<and> un \<ge> 2 ^ 63 then Inl (NumError fn s ErrRange)
                  else if neg \<and> un > 2 ^ 63 then Inl (NumError fn s ErrRange)
                  else Inr (if neg then - un else un))"

definition ParseInt :: "string \<Rightarrow> error + int" where
  "ParseInt s = ParseInt_as ''ParseInt'' s"

definition Atoi :: "string \<Rightarrow> error + int" where
  "Atoi s = ParseInt_as ''Atoi'' s"

text \<open>\<open>strconv.FormatInt\<close> at base 10 (\<open>digits\<close> writes a value that is not negative), and
  \<open>strconv.Itoa\<close>.\<close>

function digits :: "int \<Rightarrow> string" where
  "digits n = (if n < 10 then [char_of (48 + n)] else digits (n div 10) @ [char_of (48 + n mod 10)])"
  by pat_completeness auto
termination
  by (relation "measure (\<lambda>n. nat n)") auto

declare digits.simps [simp del]

definition FormatInt :: "int \<Rightarrow> string" where
  "FormatInt i = (if i < 0 then CHR ''-'' # digits (- i) else digits i)"

definition Itoa :: "nat \<Rightarrow> string" where
  "Itoa n = FormatInt (int n)"

definition parseInt :: "string \<Rightarrow> error + int" where
  "parseInt b = (if length b = 0 then Inl ErrInvalidSyntax else Atoi b)"

subsection \<open>The buffered reader\<close>

text \<open>
  A connection is the list of chunks that its successive \<open>Read\<close> calls deliver, each
  cut to the room the caller offers; the empty list is end of file. \<open>Reader\<close> is a
  \<open>bufio.Reader\<close> of the default size on such a connection: \<open>buf\<close> holds the bytes
  buffered and not yet consumed, \<open>src\<close> what the connection still has. \<open>fill\<close>,
  \<open>ReadSlice\<close>, \<open>ReadLine\<close>, \<open>Read\<close> under \<open>io.ReadFull\<close>, and \<open>Discard\<close> follow
  the Go standard library.
\<close>

record Reader =
  buf :: string
  src :: "string list"

definition bufSize :: nat where
  "bufSize = 4096"

definition NewReader :: "string list \<Rightarrow> Reader" where
  "NewReader conn = \<lparr>buf = [], src = conn\<rparr>"

definition pending :: "string list \<Rightarrow> nat" where
  "pending conn = length (concat conn) + length conn"

definition connRead :: "nat \<Rightarrow> string list \<Rightarrow> string \<times> string list" where
  "connRead room conn =
     (case conn of
        [] \<Rightarrow> ([], [])
      | c # cs \<Rightarrow> (take room c, (if length c \<le> room then cs else drop room c # cs)))"

definition fill :: "Reader \<Rightarrow> Reader" where
  "fill b = (let (got, rest) = connRead (bufSize - length (buf b)) (src b)
             in b\<lparr>buf := buf b @ got, src := rest\<rparr>)"

function ReadSlice :: "Reader \<Rightarrow> (string \<times> error option) \<times> Reader" where
  "ReadSlice b =
     (if LF \<in> set (buf b)
      then ((takeWhile (\<lambda>c. c \<noteq> LF) (buf b) @ [LF], None),
            b\<lparr>buf := tl (dropWhile (\<lambda>c. c \<noteq> LF) (buf b))\<rparr>)
      else if length (buf b) \<ge> bufSize then ((buf b, Some ErrBufferFull), b\<lparr>buf := []\<rparr>)
      else if src b = [] then ((buf b, Some EOF), b\<lparr>buf := []\<rparr>)
      else ReadSlice (fill b))"
  by pat_completeness auto
termination
  by (relation "measure (\<lambda>b. pending (src b))")
     (auto simp: fill_def connRead_def pending_def bufSize_def split: list.splits)

declare ReadSlice.simps [simp del]

definition ReadLine :: "Reader \<Rightarrow> (error + string) \<times> Reader" where
  "ReadLine b =
     (case ReadSlice b of
        ((line, Some ErrBufferFull), b1) \<Rightarrow>
          if length line > 0 \<and> last line = CR
          then (Inr (butlast line), b1\<lparr>buf := [CR]\<rparr>)
          else (Inr line, b1)
      | ((line, err), b1) \<Rightarrow>
          if length line = 0
          then (case err of Some e \<Rightarrow> (Inl e, b1) | None \<Rightarrow> (Inr [], b1))
          else if last line = LF
          then (let drop = (if length line > 1 \<and> line ! (length line - 2) = CR then 2 else 1)
                in (Inr (take (length line - drop) line), b1))
          else (Inr line, b1))"

function ReadFull :: "Reader \<Rightarrow> nat \<Rightarrow> string \<Rightarrow> (error + string) \<times> Reader" where
  "ReadFull b m acc =
     (if m = 0 then (Inr acc, b)
      else if buf b \<noteq> []
      then ReadFull (b\<lparr>buf := drop m (buf b)\<rparr>) (m - length (take m (buf b))) (acc @ take m (buf b))
      else if src b = [] then (Inl (if acc = [] then EOF else ErrUnexpectedEOF), b)
      else if m \<ge> bufSize
      then (let (got, rest) = connRead m (src b)
            in ReadFull (b\<lparr>src := rest\<rparr>) (m - length got) (acc @ got))
      else (let (got, rest) = connRead bufSize (src b)
            in ReadFull (b\<lparr>buf := got, src := rest\<rparr>) m acc))"
  by pat_completeness auto
termination
  by (relation "measures [\<lambda>(b, m, acc). pending (src b), \<lambda>(b, m, acc). m]")
     (auto simp: connRead_def pending_def bufSize_def split: list.splits if_splits)

declare ReadFull.simps [simp del]

function Discard :: "Reader \<Rightarrow> nat \<Rightarrow> error option \<times> Reader" where
  "Discard b remain =
     (if remain = 0 then (None, b)
      else if buf b = [] \<and> src b = [] then (Some EOF, b)
      else let b1 = (if buf b = [] then fill b else b);
               skip = min (length (buf b1)) remain;
               b2 = b1\<lparr>buf := drop skip (buf b1)\<rparr>
           in if remain - skip = 0 then (None, b2) else Discard b2 (remain - skip))"
  by pat_completeness auto
termination
  by (relation "measures [\<lambda>(b, remain). remain, \<lambda>(b, remain). pending (src b)]")
     (auto simp: fill_def connRead_def pending_def bufSize_def Let_def split: list.splits if_splits)

declare Discard.simps [simp del]

subsection \<open>Decoding a request\<close>

text \<open>
  \<open>make\<close> panics on a negative length and on one beyond what the runtime can ever
  allocate (\<open>maxAlloc\<close>, 2^48 bytes on linux/amd64); an allocation within that bound
  is taken to succeed.
\<close>

definition maxAlloc :: int where
  "maxAlloc = 2 ^ 48"

definition make_panics :: "int \<Rightarrow> int \<Rightarrow> bool" where
  "make_panics elemsize len = (len < 0 \<or> len * elemsize > maxAlloc)"

definition readLine :: "Reader \<Rightarrow> (error + string) \<times> Reader" where
  "readLine p = (case ReadLine p of (Inl err, p1) \<Rightarrow> (Inl err, p1) | (Inr line, p1) \<Rightarrow> (Inr line, p1))"

definition readArrayLength :: "Reader \<Rightarrow> (error + int) \<times> Reader" where
  "readArrayLength p =
     (case readLine p of
        (Inl err, p1) \<Rightarrow> (Inl err, p1)
      | (Inr line, p1) \<Rightarrow>
          if length line = 0 then (Inl ErrInvalidSyntax, p1)
          else if hd line \<noteq> CHR ''*'' then (Inl ErrInvalidSyntax, p1)
          else (parseInt (tl line), p1))"

definition readString :: "Reader \<Rightarrow> string result \<times> Reader" where
  "readString p =
     (case readLine p of
        (Inl err, p1) \<Rightarrow> (Err err, p1)
      | (Inr line, p1) \<Rightarrow>
          if length line = 0 then (Err ErrInvalidSyntax, p1)
          else if hd line \<noteq> CHR ''$'' then (Err ErrInvalidSyntax, p1)
          else (case parseInt (tl line) of
                  Inl err \<Rightarrow> (Err err, p1)
                | Inr len \<Rightarrow>
                    if make_panics 1 len then (Panic, p1)
                    else (case ReadFull p1 (nat len) [] of
                            (Inl err, p2) \<Rightarrow> (Err err, p2)
                          | (Inr bytes, p2) \<Rightarrow>
                              (case Discard p2 2 of
                                 (Some err, p3) \<Rightarrow> (Err err, p3)
                               | (None, p3) \<Rightarrow> (Ok bytes, p3)))))"

definition readCommandName :: "Reader \<Rightarrow> string result \<times> Reader" where
  "readCommandName p = readString p"

fun readCommandArgs_loop :: "nat \<Rightarrow> Reader \<Rightarrow> string list \<Rightarrow> string list result \<times> Reader" where
  "readCommandArgs_loop 0 p args = (Ok args, p)"
| "readCommandArgs_loop (Suc k) p args =
     (case readString p of
        (Ok arg, p1) \<Rightarrow> readCommandArgs_loop k p1 (args @ [arg])
      | (Err err, p1) \<Rightarrow> (Err err, p1)
      | (Panic, p1) \<Rightarrow> (Panic, p1))"

definition readCommandArgs :: "int \<Rightarrow> Reader \<Rightarrow> string list result \<times> Reader" where
  "readCommandArgs len p =
     (if make_panics 16 len then (Panic, p) else readCommandArgs_loop (nat len) p [])"

definition Parse :: "Reader \<Rightarrow> (string \<times> string list) result \<times> Reader" where
  "Parse p =
     (case readArrayLength p of
        (Inl err, p1) \<Rightarrow> (Err err, p1)
      | (Inr len, p1) \<Rightarrow>
          if len = 0 then (Err ErrInvalidSyntax, p1)
          else (case readCommandName p1 of
                  (Err err, p2) \<Rightarrow> (Err err, p2)
                | (Panic, p2) \<Rightarrow> (Panic, p2)
                | (Ok name, p2) \<Rightarrow>
                    (case readCommandArgs (len - 1) p2 of
                       (Err err, p3) \<Rightarrow> (Err err, p3)
                     | (Panic, p3) \<Rightarrow> (Panic, p3)
                     | (Ok args, p3) \<Rightarrow> (Ok (name, args), p3))))"

subsection \<open>Encoding a response\<close>

text \<open>
  A \<open>protocolBuilder\<close> is its byte buffer; each method appends to it. \<open>WriteError\<close>
  takes the text of the error.
\<close>

definition pb_WriteString :: "string \<Rightarrow> string \<Rightarrow> string" where
  "pb_WriteString w s = w @ (''$'' @ Itoa (length s) @ CRLF @ s @ CRLF)"

definition pb_WriteInt64 :: "string \<Rightarrow> int \<Rightarrow> string" where
  "pb_WriteInt64 w i = w @ ('':'' @ FormatInt i @ CRLF)"

definition pb_WriteError :: "string \<Rightarrow> string \<Rightarrow> string" where
  "pb_WriteError w msg = w @ (''-'' @ msg @ CRLF)"

definition pb_WriteStatus :: "string \<Rightarrow> string \<Rightarrow> string" where
  "pb_WriteStatus w s = w @ (''+'' @ s @ CRLF)"

definition pb_WriteArray :: "string \<Rightarrow> string list \<Rightarrow> string" where
  "pb_WriteArray w a = foldl pb_WriteString (pb_WriteInt64 w (int (length a))) a"

section \<open>Commands and their registry (commands.go, error.go, status.go)\<close>

datatype Status = OK | Pong

definition Status_String :: "Status \<Rightarrow> string" where
  "Status_String s = (case s of OK \<Rightarrow> ''OK'' | Pong \<Rightarrow> ''PONG'')"

definition Join :: "string list \<Rightarrow> string \<Rightarrow> string" where
  "Join elems sep = (case elems of [] \<Rightarrow> [] | e # es \<Rightarrow> e @ concat (map (\<lambda>x. sep @ x) es))"

definition wrongNumberOfArgsError_Error :: "string \<Rightarrow> string" where
  "wrongNumberOfArgsError_Error command =
     ''ERR wrong number of arguments for '' @ [CHR 0x27] @ command @ [CHR 0x27] @ '' command''"

definition wrongCommandError_Error :: "string \<Rightarrow> string list \<Rightarrow> string" where
  "wrongCommandError_Error command args =
     (if length args > 0
      then ''ERR wrong command '' @ [CHR 0x27] @ command @ [CHR 0x27] @ '' args = '' @ Join args '' ''
      else ''ERR unknown command '' @ [CHR 0x27] @ command @ [CHR 0x27])"

text \<open>
  What a command does to its \<open>ResponseWriter\<close> is the list of calls it makes on it;
  every write is taken to succeed. A command value is its type and its arguments;
  \<open>QuitCommand\<close> has none.
\<close>

datatype response =
    WriteError error
  | WriteStatus Status
  | WriteInt64 int
  | WriteArray "string list"
  | WriteString string
  | Write string

datatype Command =
    PingCommand "string list"
  | EchoCommand "string list"
  | PushCommand "string list"
  | PopCommand "string list"
  | LengthCommand "string list"
  | QuitCommand

definition NewPingCommand :: "string list \<Rightarrow> error + Command" where
  "NewPingCommand args =
     (if length args > 1 then Inl (wrongNumberOfArgsError ''ping'') else Inr (PingCommand args))"

definition NewEchoCommand :: "string list \<Rightarrow> error + Command" where
  "NewEchoCommand args =
     (if length args \<noteq> 1 then Inl (wrongNumberOfArgsError ''echo'') else Inr (EchoCommand args))"

definition NewPushCommand :: "string list \<Rightarrow> error + Command" where
  "NewPushCommand args =
     (if length args \<noteq> 3 then Inl (wrongNumberOfArgsError ''push'') else Inr (PushCommand args))"

definition NewPopCommand :: "string list \<Rightarrow> error + Command" where
  "NewPopCommand args =
     (if length args \<noteq> 1 then Inl (wrongNumberOfArgsError ''pop'') else Inr (PopCommand args))"

definition NewLengthCommand :: "string list \<Rightarrow> error + Command" where
  "NewLengthCommand args =
     (if length args \<noteq> 1 then Inl (wrongNumberOfArgsError ''length'') else Inr (LengthCommand args))"

definition NewQuitCommand :: "string list \<Rightarrow> error + Command" where
  "NewQuitCommand args =
     (if length args \<noteq> 0 then Inl (wrongNumberOfArgsError ''quit'') else Inr QuitCommand)"

text \<open>The registry as \<open>init\<close> fills it: six entries.\<close>

definition commandLibraries :: "string \<rightharpoonup> (string list \<Rightarrow> error + Command)" where
  "commandLibraries =
     Map.empty(''ping'' \<mapsto> NewPingCommand,
               ''echo'' \<mapsto> NewEchoCommand,
               ''push'' \<mapsto> NewPushCommand,
               ''pop'' \<mapsto> NewPopCommand,
               ''length'' \<mapsto> NewLengthCommand,
               ''quit'' \<mapsto> NewQuitCommand)"

text \<open>
  \<open>Execute\<close> returns how the call ends (with an error or \<open>nil\<close>, or waiting inside
  \<open>Dequeue\<close>), the calls made on the writer, and the queue afterwards.
\<close>

datatype exec_result = Returns "error option" | Waits

fun Execute :: "Command \<Rightarrow> PriorityQueueWithRouting \<Rightarrow>
                 exec_result \<times> response list \<times> PriorityQueueWithRouting" where
  "Execute (PingCommand args) pq =
     (if length args = 0 then (Returns None, [WriteStatus Pong], pq)
      else if length args = 1 then (Returns None, [WriteString (args ! 0)], pq)
      else (Returns None, [WriteError (wrongNumberOfArgsError ''ping'')], pq))"
| "Execute (EchoCommand args) pq =
     (if length args \<noteq> 1 then (Returns None, [WriteError (wrongNumberOfArgsError ''echo'')], pq)
      else (Returns None, [WriteString (args ! 0)], pq))"
| "Execute (PushCommand args) pq =
     (if length args \<noteq> 3 then (Returns (Some (wrongNumberOfArgsError ''push'')), [], pq)
      else (case ParseInt (args ! 2) of
              Inl err \<Rightarrow> (Returns (Some err), [], pq)
            | Inr prio \<Rightarrow>
                (Returns None, [WriteStatus OK],
                 Enqueue (args ! 0) \<lparr>ivalue = args ! 1, priority = prio, index = 0\<rparr> pq)))"
| "Execute (PopCommand args) pq =
     (if length args \<noteq> 1 then (Returns (Some (wrongNumberOfArgsError ''pop'')), [], pq)
      else (case Dequeue (args ! 0) pq of
              (Blocked, pq') \<Rightarrow> (Waits, [], pq')
            | (Returned item, pq') \<Rightarrow> (Returns None, [WriteString (ivalue item)], pq')))"
| "Execute (LengthCommand args) pq =
     (if length args \<noteq> 1 then (Returns (Some (wrongNumberOfArgsError ''length'')), [], pq)
      else (Returns None, [WriteInt64 (int (Length (args ! 0) pq))], pq))"
| "Execute QuitCommand pq = (Returns (Some ErrQuit), [Write CRLF], pq)"

text \<open>
  \<open>CommandCommand\<close> has a type and an \<open>Execute\<close> method but no constructor, so no
  \<open>Command\<close> value above stands for it. Its method, given the order \<open>names\<close> in which
  the iteration over the registry yields the keys:
\<close>

definition CommandCommand_Execute :: "string list \<Rightarrow> string list \<Rightarrow> exec_result \<times> response list" where
  "CommandCommand_Execute names args =
     (if length args \<noteq> 0 then (Returns None, [WriteError (wrongNumberOfArgsError ''command'')])
      else (Returns None, [WriteArray names]))"

section \<open>Reading a command and serving a connection (protocol.go, server.go)\<close>

text \<open>
  \<open>construct\<close> is the second half of \<open>CommandParser.ReadFrom\<close>: the lookup of the
  lower-cased name and the call of its constructor. \<open>ReadFrom\<close> puts a new buffered
  reader on the connection, parses one request and constructs the command; what the
  reader had buffered beyond the request goes with the reader. \<open>strings.ToLower\<close> is
  the parameter \<open>lower\<close>; \<open>ToLower_ascii\<close> is what it does to ASCII text.
\<close>

definition ToLower_ascii :: "string \<Rightarrow> string" where
  "ToLower_ascii s =
     map (\<lambda>c. if 65 \<le> (of_char c :: int) \<and> (of_char c :: int) \<le> 90
               then char_of ((of_char c :: int) + 32) else c) s"

definition construct :: "string \<Rightarrow> string list \<Rightarrow> error + Command" where
  "construct cmd args =
     (case commandLibraries cmd of
        None \<Rightarrow> Inl (wrongCommandError cmd args)
      | Some constructor \<Rightarrow> constructor args)"

definition ReadFrom :: "(string \<Rightarrow> string) \<Rightarrow> string list \<Rightarrow> Command result \<times> string list" where
  "ReadFrom lower conn =
     (case Parse (NewReader conn) of
        (Err err, p) \<Rightarrow> (Err err, src p)
      | (Panic, p) \<Rightarrow> (Panic, src p)
      | (Ok (cmd, args), p) \<Rightarrow>
          (case construct (lower cmd) args of
             Inl err \<Rightarrow> (Err err, src p)
           | Inr command \<Rightarrow> (Ok command, src p)))"

text \<open>
  A session is what its connection still delivers, the calls made on its writer so far,
  and the shared queue. Both loops of server.go are \<open>for\<close> loops without a bound, so
  they take fuel; the context of a connection is never cancelled by this package.
  \<open>serve\<close> ends by returning an error, waiting in \<open>Dequeue\<close>, or panicking;
  \<open>serveConn\<close> ends by closing the connection, and otherwise goes on.
\<close>

record session =
  conn :: "string list"
  written :: "response list"
  queue :: PriorityQueueWithRouting

datatype serve_result = ServeReturns error | ServeWaits | ServePanics | ServeOutOfFuel

fun serve :: "(string \<Rightarrow> string) \<Rightarrow> nat \<Rightarrow> session \<Rightarrow> serve_result \<times> session" where
  "serve lower 0 s = (ServeOutOfFuel, s)"
| "serve lower (Suc n) s =
     (case ReadFrom lower (conn s) of
        (Err err, rest) \<Rightarrow> (ServeReturns err, s\<lparr>conn := rest\<rparr>)
      | (Panic, rest) \<Rightarrow> (ServePanics, s\<lparr>conn := rest\<rparr>)
      | (Ok command, rest) \<Rightarrow>
          (case Execute command (queue s) of
             (Waits, out, pq) \<Rightarrow>
               (ServeWaits, s\<lparr>conn := rest, written := written s @ out, queue := pq\<rparr>)
           | (Returns (Some err), out, pq) \<Rightarrow>
               (ServeReturns err, s\<lparr>conn := rest, written := written s @ out, queue := pq\<rparr>)
           | (Returns None, out, pq) \<Rightarrow>
               serve lower n (s\<lparr>conn := rest, written := written s @ out, queue := pq\<rparr>)))"

datatype conn_result = Closed | Waiting | Crashed | OutOfFuel

fun serveConn :: "(string \<Rightarrow> string) \<Rightarrow> nat \<Rightarrow> session \<Rightarrow> conn_result \<times> session" where
  "serveConn lower 0 s = (OutOfFuel, s)"
| "serveConn lower (Suc n) s =
     (case serve lower (Suc n) s of
        (ServeReturns err, s') \<Rightarrow>
          if err = ErrQuit then (Closed, s')
          else serveConn lower n (s'\<lparr>written := written s' @ [WriteError err]\<rparr>)
      | (ServeWaits, s') \<Rightarrow> (Waiting, s')
      | (ServePanics, s') \<Rightarrow> (Crashed, s')
      | (ServeOutOfFuel, s') \<Rightarrow> (OutOfFuel, s'))"

definition new_session :: "string list \<Rightarrow> session" where
  "new_session c = \<lparr>conn = c, written = [], queue = NewPriorityQueueWithRouting\<rparr>"

section \<open>Interleaved calls on the queue (queue.go)\<close>

text \<open>
  \<open>Enqueue\<close> and \<open>Dequeue\<close> cut at their lock operations, so that calls of several
  goroutines can interleave. A \<open>thread\<close> is the point a call has reached:
  \<^item> \<open>Enq_Lock\<close>: before \<open>pq.queueLock.Lock()\<close>; \<open>Enq_Body\<close>: the body up to and
    including \<open>cond.Broadcast()\<close>; \<open>Enq_Unlock\<close>: the deferred \<open>Unlock\<close>;
  \<^item> \<open>Deq_Lock\<close>: before \<open>pq.queueLock.Lock()\<close> (at entry, and at the end of a pass);
    \<open>Deq_Check\<close>: the test of the queue with \<open>heap.Pop\<close> or the lookup of the
    condition variable, which is the pass \<open>Dequeue\<close> above; \<open>Deq_Unlock\<close>:
    \<open>pq.queueLock.Unlock()\<close>; \<open>Deq_CondLock\<close>: \<open>cond.L.Lock()\<close>; \<open>Deq_Wait\<close>: the
    entry of \<open>cond.Wait()\<close>, which joins the notify list and releases \<open>cond.L\<close>;
    \<open>Deq_Parked\<close>: inside \<open>Wait\<close> until a \<open>Broadcast\<close>; \<open>Deq_Woken\<close>: the
    \<open>cond.L.Lock()\<close> that ends \<open>Wait\<close>; \<open>Deq_CondUnlock\<close>: \<open>cond.L.Unlock()\<close>;
    \<open>Deq_Return\<close>: \<open>pq.queueLock.Unlock()\<close> and the return of the item.
  A route has at most one condition variable, never replaced, so the notify list and
  the private mutex of a condition variable are named by the route.
\<close>

datatype thread =
    Enq_Lock string Item
  | Enq_Body string Item
  | Enq_Unlock
  | Deq_Lock string
  | Deq_Check string
  | Deq_Unlock string
  | Deq_CondLock string
  | Deq_Wait string
  | Deq_Parked string
  | Deq_Woken string
  | Deq_CondUnlock string
  | Deq_Return Item
  | Done "Item option"

datatype lock = TheQueueLock | CondMutex string

record world =
  shared :: PriorityQueueWithRouting
  holder :: "lock \<rightharpoonup> nat"
  parked :: "string \<Rightarrow> nat list"
  threads :: "nat \<Rightarrow> thread"

definition cond_L :: "string \<Rightarrow> world \<Rightarrow> lock" where
  "cond_L route w =
     (case notEmpty (shared w) route of Some QueueLock \<Rightarrow> TheQueueLock | _ \<Rightarrow> CondMutex route)"

definition acquire :: "lock \<Rightarrow> nat \<Rightarrow> thread \<Rightarrow> world \<Rightarrow> world option" where
  "acquire l t next w =
     (if holder w l = None
      then Some (w\<lparr>holder := (holder w)(l \<mapsto> t), threads := (threads w)(t := next)\<rparr>)
      else None)"

definition release :: "lock \<Rightarrow> nat \<Rightarrow> thread \<Rightarrow> world \<Rightarrow> world option" where
  "release l t next w =
     Some (w\<lparr>holder := (holder w)(l := None), threads := (threads w)(t := next)\<rparr>)"

definition step :: "nat \<Rightarrow> world \<Rightarrow> world option" where
  "step t w =
     (case threads w t of
        Enq_Lock route item \<Rightarrow> acquire TheQueueLock t (Enq_Body route item) w
      | Enq_Body route item \<Rightarrow>
          Some (w\<lparr>shared := Enqueue route item (shared w),
                  parked := (parked w)(route := []),
                  threads := (threads w)(t := Enq_Unlock)\<rparr>)
      | Enq_Unlock \<Rightarrow> release TheQueueLock t (Done None) w
      | Deq_Lock route \<Rightarrow> acquire TheQueueLock t (Deq_Check route) w
      | Deq_Check route \<Rightarrow>
          (case Dequeue route (shared w) of
             (Returned item, pq) \<Rightarrow>
               Some (w\<lparr>shared := pq, threads := (threads w)(t := Deq_Return item)\<rparr>)
           | (Blocked, pq) \<Rightarrow>
               Some (w\<lparr>shared := pq, threads := (threads w)(t := Deq_Unlock route)\<rparr>))
      | Deq_Unlock route \<Rightarrow> release TheQueueLock t (Deq_CondLock route) w
      | Deq_CondLock route \<Rightarrow> acquire (cond_L route w) t (Deq_Wait route) w
      | Deq_Wait route \<Rightarrow>
          Some (w\<lparr>holder := (holder w)(cond_L route w := None),
                  parked := (parked w)(route := parked w route @ [t]),
                  threads := (threads w)(t := Deq_Parked route)\<rparr>)
      | Deq_Parked route \<Rightarrow>
          if t \<in> set (parked w route) then None
          else Some (w\<lparr>threads := (threads w)(t := Deq_Woken route)\<rparr>)
      | Deq_Woken route \<Rightarrow> acquire (cond_L route w) t (Deq_CondUnlock route) w
      | Deq_CondUnlock route \<Rightarrow> release (cond_L route w) t (Deq_Lock route) w
      | Deq_Return item \<Rightarrow> release TheQueueLock t (Done (Some item)) w
      | Done r \<Rightarrow> None)"

text \<open>
  \<open>exec\<close> follows a schedule, the list of the threads that move; it is \<open>None\<close> when
  the schedule names a thread that cannot move.
\<close>

fun exec :: "nat list \<Rightarrow> world \<Rightarrow> world option" where
  "exec [] w = Some w"
| "exec (t # ts) w = (case step t w of None \<Rightarrow> None | Some w' \<Rightarrow> exec ts w')"

definition start :: "thread \<Rightarrow> thread \<Rightarrow> world" where
  "start t0 t1 =
     \<lparr>shared = NewPriorityQueueWithRouting, holder = Map.empty, parked = (\<lambda>r. []),
      threads = (\<lambda>t. Done None)(0 := t0, 1 := t1)\<rparr>"

section \<open>Notions used to state the properties\<close>

text \<open>
  \<open>key\<close> is what a client can observe of an item: its payload and priority.
  \<open>heap_upto\<close> is the heap order of the first \<open>n\<close> slots: no slot holds a higher
  priority than its parent. \<open>up_inv\<close> and \<open>down_inv\<close> are the loop invariants of
  \<open>up\<close> and \<open>down\<close> (the heap order with one slot out of place), and \<open>pick\<close> is
  the child that \<open>down\<close> compares with.
  \<open>contents\<close> is the multiset of keys held by a route; \<open>enqueued\<close> and
  \<open>dequeued\<close> are the keys a history put into a route and took out of it, and
  \<open>count_enq\<close>, \<open>count_deq\<close> count its calls on a route.
\<close>

definition key :: "Item \<Rightarrow> string \<times> int" where
  "key x = (ivalue x, priority x)"

definition heap_upto :: "PriorityQueue \<Rightarrow> nat \<Rightarrow> bool" where
  "heap_upto h n = (\<forall>k. 0 < k \<and> k < n \<longrightarrow> priority (h ! k) \<le> priority (h ! ((k - 1) div 2)))"

definition up_inv :: "PriorityQueue \<Rightarrow> nat \<Rightarrow> bool" where
  "up_inv h j =
     (j < length h \<and>
      (\<forall>k. 0 < k \<and> k < length h \<and> k \<noteq> j \<longrightarrow> priority (h ! k) \<le> priority (h ! ((k - 1) div 2))) \<and>
      (\<forall>k. 0 < k \<and> k < length h \<and> (k - 1) div 2 = j \<and> 0 < j \<longrightarrow>
           priority (h ! k) \<le> priority (h ! ((j - 1) div 2))))"

definition down_inv :: "PriorityQueue \<Rightarrow> nat \<Rightarrow> nat \<Rightarrow> bool" where
  "down_inv h i n =
     (n \<le> length h \<and>
      (\<forall>k. 0 < k \<and> k < n \<and> (k - 1) div 2 \<noteq> i \<longrightarrow> priority (h ! k) \<le> priority (h ! ((k - 1) div 2))) \<and>
      (\<forall>k. 0 < k \<and> k < n \<and> (k - 1) div 2 = i \<and> 0 < i \<longrightarrow>
           priority (h ! k) \<le> priority (h ! ((i - 1) div 2))))"

definition pick :: "PriorityQueue \<Rightarrow> nat \<Rightarrow> nat \<Rightarrow> nat" where
  "pick h i n = (if 2 * i + 1 + 1 < n \<and> Less h (2 * i + 1 + 1) (2 * i + 1) then 2 * i + 1 + 1 else 2 * i + 1)"

definition heap_ok :: "PriorityQueue \<Rightarrow> bool" where
  "heap_ok h = heap_upto h (length h)"

definition contents :: "string \<Rightarrow> PriorityQueueWithRouting \<Rightarrow> (string \<times> int) multiset" where
  "contents route pq = (case queueMap pq route of None \<Rightarrow> {#} | Some h \<Rightarrow> mset (map key h))"

fun enqueued :: "string \<Rightarrow> call list \<Rightarrow> (string \<times> int) multiset" where
  "enqueued r [] = {#}"
| "enqueued r (Enq r' item # cs) =
     (if r' = r then add_mset (key item) (enqueued r cs) else enqueued r cs)"
| "enqueued r (Deq r' # cs) = enqueued r cs"

definition dequeued :: "string \<Rightarrow> (string \<times> Item) list \<Rightarrow> (string \<times> int) multiset" where
  "dequeued r out = mset (map (\<lambda>p. key (snd p)) (filter (\<lambda>p. fst p = r) out))"

fun count_enq :: "string \<Rightarrow> call list \<Rightarrow> nat" where
  "count_enq r [] = 0"
| "count_enq r (Enq r' item # cs) = (if r' = r then Suc (count_enq r cs) else count_enq r cs)"
| "count_enq r (Deq r' # cs) = count_enq r cs"

fun count_deq :: "string \<Rightarrow> call list \<Rightarrow> nat" where
  "count_deq r [] = 0"
| "count_deq r (Enq r' item # cs) = count_deq r cs"
| "count_deq r (Deq r' # cs) = (if r' = r then Suc (count_deq r cs) else count_deq r cs)"

definition all_ok :: "PriorityQueueWithRouting \<Rightarrow> bool" where
  "all_ok pq = (\<forall>r h. queueMap pq r = Some h \<longrightarrow> heap_ok h)"

definition returned_values :: "call list \<Rightarrow> string list option" where
  "returned_values cs =
     (case run cs NewPriorityQueueWithRouting of
        None \<Rightarrow> None
      | Some (out, pq) \<Rightarrow> Some (map (\<lambda>p. ivalue (snd p)) out))"

text \<open>
  \<open>stream\<close> is everything a reader has still to hand out: what it has buffered, then
  what its connection delivers. \<open>wrong_arity\<close> lists, for each command name of the
  protocol, the argument counts that are not accepted. \<open>observe\<close> reads off a world
  where its first two threads stand, the length and the condition variable of a route,
  and whether either thread is unable to move.
\<close>

definition stream :: "Reader \<Rightarrow> string" where
  "stream b = buf b @ concat (src b)"

definition wrong_arity :: "string \<Rightarrow> nat \<Rightarrow> bool" where
  "wrong_arity cmd n =
     ((cmd = ''ping'' \<and> n > 1) \<or> (cmd = ''echo'' \<and> n \<noteq> 1) \<or> (cmd = ''push'' \<and> n \<noteq> 3) \<or>
      (cmd = ''pop'' \<and> n \<noteq> 1) \<or> (cmd = ''length'' \<and> n \<noteq> 1) \<or> (cmd = ''quit'' \<and> n \<noteq> 0) \<or>
      (cmd = ''command'' \<and> n \<noteq> 0))"

definition observe :: "string \<Rightarrow> world option \<Rightarrow>
                       (thread \<times> thread \<times> nat \<times> locker option \<times> bool \<times> bool) option" where
  "observe route r =
     (case r of
        None \<Rightarrow> None
      | Some w \<Rightarrow> Some (threads w 0, threads w 1, Length route (shared w),
                          notEmpty (shared w) route, step 0 w = None, step 1 w = None))"

section \<open>The heap order is kept by the queue\<close>

lemma length_Swap [simp]: "length (Swap h i j) = length h"
  by (simp add: Swap_def Let_def)

lemma priority_Swap:
  "i < length h \<Longrightarrow> j < length h \<Longrightarrow> k < length h \<Longrightarrow>
   priority (Swap h i j ! k) =
     (if k = j then priority (h ! i) else if k = i then priority (h ! j) else priority (h ! k))"
  by (simp add: Swap_def Let_def nth_list_update)

lemma nth_Swap_other:
  "k \<noteq> i \<Longrightarrow> k \<noteq> j \<Longrightarrow> Swap h i j ! k = h ! k"
  by (simp add: Swap_def Let_def)

lemma map_key_Swap:
  "i < length h \<Longrightarrow> j < length h \<Longrightarrow>
   map key (Swap h i j) = (map key h)[j := map key h ! i, i := map key h ! j]"
  by (auto simp: Swap_def Let_def key_def list_eq_iff_nth_eq nth_list_update)

lemma mset_key_Swap:
  "i < length h \<Longrightarrow> j < length h \<Longrightarrow> mset (map key (Swap h i j)) = mset (map key h)"
  by (simp only: map_key_Swap length_map) (rule mset_swap; simp)

lemma length_up [simp]: "length (up h j) = length h"
proof (induction h j rule: up.induct)
  case (1 h j)
  show ?case
    using "1.IH" by (subst up.simps) (simp add: Let_def)
qed

lemma mset_key_up: "j < length h \<Longrightarrow> mset (map key (up h j)) = mset (map key h)"
proof (induction h j rule: up.induct)
  case (1 h j)
  let ?i = "(j - 1) div 2"
  show ?case
  proof (cases "?i = j \<or> \<not> Less h j ?i")
    case True
    then show ?thesis by (subst up.simps) (simp add: Let_def)
  next
    case False
    have ij: "?i < length h" using "1.prems" by simp
    have "mset (map key (up (Swap h ?i j) ?i)) = mset (map key (Swap h ?i j))"
      using "1.IH"[OF refl] False ij by simp
    also have "\<dots> = mset (map key h)" using ij "1.prems" by (rule mset_key_Swap)
    finally show ?thesis using False by (subst up.simps) (simp add: Let_def)
  qed
qed

lemma up_heap: "up_inv h j \<Longrightarrow> heap_upto (up h j) (length h)"
proof (induction h j rule: up.induct)
  case (1 h j)
  let ?i = "(j - 1) div 2"
  have jl: "j < length h" using "1.prems" by (simp add: up_inv_def)
  show ?case
  proof (cases "?i = j \<or> \<not> Less h j ?i")
    case True
    have "heap_upto h (length h)"
      unfolding heap_upto_def
    proof (intro allI impI)
      fix k assume k: "0 < k \<and> k < length h"
      show "priority (h ! k) \<le> priority (h ! ((k - 1) div 2))"
      proof (cases "k = j")
        case False
        then show ?thesis using "1.prems" k by (simp add: up_inv_def)
      next
        case kj: True
        then have "?i \<noteq> j" using k by arith
        then have "\<not> Less h j ?i" using True by simp
        then show ?thesis using kj by (simp add: Less_def)
      qed
    qed
    then show ?thesis using True by (subst up.simps) (simp add: Let_def)
  next
    case False
    then have neq: "?i \<noteq> j" and less: "priority (h ! ?i) < priority (h ! j)"
      by (auto simp: Less_def)
    have ilt: "?i < j" using neq by arith
    have il: "?i < length h" using jl by simp
    have "up_inv (Swap h ?i j) ?i"
      unfolding up_inv_def
    proof (intro conjI allI impI)
      show "?i < length (Swap h ?i j)" using il by simp
    next
      fix k assume k: "0 < k \<and> k < length (Swap h ?i j) \<and> k \<noteq> ?i"
      then have kl: "k < length h" and pl: "(k - 1) div 2 < length h" by auto
      have pk: "(k - 1) div 2 < k" using k by arith
      show "priority (Swap h ?i j ! k) \<le> priority (Swap h ?i j ! ((k - 1) div 2))"
      proof (cases "k = j")
        case True
        then show ?thesis using less il jl neq by (simp add: priority_Swap)
      next
        case kj: False
        show ?thesis
        proof (cases "(k - 1) div 2 = j")
          case True
          have "0 < j" using ilt by simp
          then have "priority (h ! k) \<le> priority (h ! ?i)"
            using "1.prems" k kl True by (simp add: up_inv_def)
          then show ?thesis using True kj k il jl kl neq by (simp add: priority_Swap)
        next
          case pj: False
          have base: "priority (h ! k) \<le> priority (h ! ((k - 1) div 2))"
            using "1.prems" k kl kj by (simp add: up_inv_def)
          show ?thesis
          proof (cases "(k - 1) div 2 = ?i")
            case True
            then show ?thesis using base less kj k il jl kl neq pj
              by (simp add: priority_Swap)
          next
            case False
            then show ?thesis using base kj k il jl kl pl pj
              by (simp add: priority_Swap)
          qed
        qed
      qed
    next
      fix k assume k: "0 < k \<and> k < length (Swap h ?i j) \<and> (k - 1) div 2 = ?i \<and> 0 < ?i"
      then have kl: "k < length h" by simp
      let ?g = "(?i - 1) div 2"
      have gi: "?g < ?i" using k by arith
      have gl: "?g < length h" using gi il by simp
      have ig: "priority (h ! ?i) \<le> priority (h ! ?g)"
        using "1.prems" k il neq by (simp add: up_inv_def)
      have kni: "k \<noteq> ?i" using k by arith
      show "priority (Swap h ?i j ! k) \<le> priority (Swap h ?i j ! ?g)"
      proof (cases "k = j")
        case True
        then show ?thesis using ig gi ilt il jl gl by (simp add: priority_Swap)
      next
        case False
        then have "priority (h ! k) \<le> priority (h ! ((k - 1) div 2))"
          using "1.prems" k kl unfolding up_inv_def by blast
        then have "priority (h ! k) \<le> priority (h ! ?i)" using k by simp
        then show ?thesis using False kni ig gi ilt il jl gl kl by (simp add: priority_Swap)
      qed
    qed
    then have "heap_upto (up (Swap h ?i j) ?i) (length h)"
      using "1.IH"[OF refl] False by simp
    then show ?thesis using False by (subst up.simps) (simp add: Let_def)
  qed
qed

lemma down_stop: "n \<le> 2 * i + 1 \<or> \<not> Less h (pick h i n) i \<Longrightarrow> down h i n = h"
  by (subst down.simps) (auto simp: Let_def pick_def)

lemma down_step:
  "2 * i + 1 < n \<Longrightarrow> Less h (pick h i n) i \<Longrightarrow>
   down h i n = down (Swap h i (pick h i n)) (pick h i n) n"
  by (subst down.simps) (auto simp: Let_def pick_def)

lemma down_induct:
  assumes "\<And>h i n. (2 * i + 1 < n \<Longrightarrow> Less h (pick h i n) i \<Longrightarrow>
                      P (Swap h i (pick h i n)) (pick h i n) n) \<Longrightarrow> P h i n"
  shows "P h i n"
proof (induction h i n rule: down.induct)
  case (1 h i n)
  show ?case
  proof (rule assms)
    assume a: "2 * i + 1 < n" "Less h (pick h i n) i"
    have "P (Swap h i (if 2 * i + 1 + 1 < n \<and> Less h (2 * i + 1 + 1) (2 * i + 1) then 2 * i + 1 + 1 else 2 * i + 1))
            (if 2 * i + 1 + 1 < n \<and> Less h (2 * i + 1 + 1) (2 * i + 1) then 2 * i + 1 + 1 else 2 * i + 1) n"
      using a by (intro "1.IH"[OF refl _ refl refl]) (simp_all add: pick_def)
    then show "P (Swap h i (pick h i n)) (pick h i n) n" by (simp only: pick_def)
  qed
qed

lemma pick_lt: "2 * i + 1 < n \<Longrightarrow> pick h i n < n"
  by (simp add: pick_def)

lemma pick_gt: "i < pick h i n"
  by (simp add: pick_def)

lemma pick_parent: "(pick h i n - 1) div 2 = i"
  by (simp add: pick_def)

lemma pick_max:
  assumes "0 < k" "k < n" "(k - 1) div 2 = i"
  shows "priority (h ! k) \<le> priority (h ! pick h i n)"
proof -
  have "k = 2 * i + 1 \<or> k = 2 * i + 1 + 1" using assms by arith
  then show ?thesis using assms(2) by (auto simp: pick_def Less_def)
qed

lemma length_down [simp]: "length (down h i n) = length h"
proof (induction h i n rule: down_induct)
  case (1 h i n)
  show ?case
  proof (cases "2 * i + 1 < n \<and> Less h (pick h i n) i")
    case True
    then show ?thesis using 1 by (simp add: down_step)
  next
    case False
    then show ?thesis by (subst down_stop) auto
  qed
qed

lemma nth_down_beyond: "n \<le> m \<Longrightarrow> down h i n ! m = h ! m"
proof (induction h i n rule: down_induct)
  case (1 h i n)
  show ?case
  proof (cases "2 * i + 1 < n \<and> Less h (pick h i n) i")
    case True
    then have "pick h i n < n" by (simp add: pick_lt)
    then have "Swap h i (pick h i n) ! m = h ! m"
      using "1.prems" pick_gt[of i h n] by (intro nth_Swap_other) auto
    then show ?thesis using True 1 by (simp add: down_step)
  next
    case False
    then show ?thesis by (subst down_stop) auto
  qed
qed

lemma mset_key_down: "n \<le> length h \<Longrightarrow> mset (map key (down h i n)) = mset (map key h)"
proof (induction h i n rule: down_induct)
  case (1 h i n)
  show ?case
  proof (cases "2 * i + 1 < n \<and> Less h (pick h i n) i")
    case True
    then have pn: "pick h i n < n" by (simp add: pick_lt)
    then have "mset (map key (Swap h i (pick h i n))) = mset (map key h)"
      using "1.prems" pick_gt[of i h n] by (intro mset_key_Swap) auto
    moreover have "mset (map key (down (Swap h i (pick h i n)) (pick h i n) n)) =
                   mset (map key (Swap h i (pick h i n)))"
      using True "1.prems" by (intro "1.IH") auto
    ultimately show ?thesis using True by (simp only: down_step)
  next
    case False
    then show ?thesis by (subst down_stop) auto
  qed
qed

lemma down_heap: "down_inv h i n \<Longrightarrow> heap_upto (down h i n) n"
proof (induction h i n rule: down_induct)
  case (1 h i n)
  let ?j = "pick h i n"
  have nl: "n \<le> length h" using "1.prems" by (simp add: down_inv_def)
  have inv1: "\<And>k. 0 < k \<Longrightarrow> k < n \<Longrightarrow> (k - 1) div 2 \<noteq> i \<Longrightarrow>
                priority (h ! k) \<le> priority (h ! ((k - 1) div 2))"
    using "1.prems" by (simp add: down_inv_def)
  have inv2: "\<And>k. 0 < k \<Longrightarrow> k < n \<Longrightarrow> (k - 1) div 2 = i \<Longrightarrow> 0 < i \<Longrightarrow>
                priority (h ! k) \<le> priority (h ! ((i - 1) div 2))"
    using "1.prems" by (simp add: down_inv_def)
  show ?case
  proof (cases "2 * i + 1 < n")
    case False
    have "heap_upto h n"
      unfolding heap_upto_def
    proof (intro allI impI)
      fix k assume k: "0 < k \<and> k < n"
      then have "(k - 1) div 2 \<noteq> i" using False by arith
      then show "priority (h ! k) \<le> priority (h ! ((k - 1) div 2))" using inv1 k by simp
    qed
    then show ?thesis using False by (subst down_stop) auto
  next
    case j1n: True
    have jn: "?j < n" using j1n by (rule pick_lt)
    have pj: "(?j - 1) div 2 = i" by (rule pick_parent)
    have ij: "i < ?j" by (rule pick_gt)
    show ?thesis
    proof (cases "Less h ?j i")
      case False
      then have le: "priority (h ! ?j) \<le> priority (h ! i)" by (simp add: Less_def)
      have "heap_upto h n"
        unfolding heap_upto_def
      proof (intro allI impI)
        fix k assume k: "0 < k \<and> k < n"
        show "priority (h ! k) \<le> priority (h ! ((k - 1) div 2))"
        proof (cases "(k - 1) div 2 = i")
          case True
          then have "priority (h ! k) \<le> priority (h ! ?j)" using pick_max k by blast
          then show ?thesis using le True by simp
        next
          case False
          then show ?thesis using inv1 k by simp
        qed
      qed
      then show ?thesis using False by (subst down_stop) auto
    next
      case True
      then have less: "priority (h ! i) < priority (h ! ?j)" by (simp add: Less_def)
      let ?h = "Swap h i ?j"
      have il: "i < length h" and jl: "?j < length h" using ij jn nl by auto
      have hi: "priority (?h ! i) = priority (h ! ?j)"
        using il jl ij by (simp add: priority_Swap)
      have hj: "priority (?h ! ?j) = priority (h ! i)"
        using il jl ij by (simp add: priority_Swap)
      have "down_inv ?h ?j n"
        unfolding down_inv_def
      proof (intro conjI allI impI)
        show "n \<le> length ?h" using nl by simp
      next
        fix k assume k: "0 < k \<and> k < n \<and> (k - 1) div 2 \<noteq> ?j"
        show "priority (?h ! k) \<le> priority (?h ! ((k - 1) div 2))"
        proof (cases "k = ?j")
          case True
          then show ?thesis using less hi hj pj by simp
        next
          case kj: False
          show ?thesis
          proof (cases "k = i")
            case True
            then have i0: "0 < i" using k by simp
            let ?g = "(i - 1) div 2"
            have gi: "?g < i" using i0 by arith
            have "priority (h ! ?j) \<le> priority (h ! ?g)"
              using inv2[of ?j] jn pj i0 ij by simp
            moreover have "?h ! ?g = h ! ?g"
              using ij gi by (intro nth_Swap_other) auto
            ultimately show ?thesis using True hi by simp
          next
            case ki: False
            have kk: "?h ! k = h ! k"
              using ki kj by (simp add: nth_Swap_other)
            show ?thesis
            proof (cases "(k - 1) div 2 = i")
              case True
              have "priority (h ! k) \<le> priority (h ! ?j)" using pick_max k True by blast
              then show ?thesis using True kk hi by simp
            next
              case False
              then have "priority (h ! k) \<le> priority (h ! ((k - 1) div 2))" using inv1 k by simp
              moreover have "?h ! ((k - 1) div 2) = h ! ((k - 1) div 2)"
                using False k by (intro nth_Swap_other) auto
              ultimately show ?thesis using kk by simp
            qed
          qed
        qed
      next
        fix k assume k: "0 < k \<and> k < n \<and> (k - 1) div 2 = ?j \<and> 0 < ?j"
        have kj: "k \<noteq> ?j" using k by arith
        have ki: "k \<noteq> i" using k ij by arith
        have kp: "(k - 1) div 2 = ?j" using k by simp
        have "(k - 1) div 2 \<noteq> i" using kp ij by simp
        then have "priority (h ! k) \<le> priority (h ! ((k - 1) div 2))" using inv1[of k] k by blast
        then have "priority (h ! k) \<le> priority (h ! ?j)" by (simp only: kp)
        moreover have "?h ! k = h ! k"
          using ki kj by (simp add: nth_Swap_other)
        ultimately show "priority (?h ! k) \<le> priority (?h ! ((?j - 1) div 2))"
          using pj hi by simp
      qed
      then have "heap_upto (down ?h ?j n) n"
        using True j1n by (intro "1.IH") auto
      then show ?thesis using True j1n by (simp only: down_step)
    qed
  qed
qed

lemma heap_root_max:
  assumes "heap_upto h n" "k < n"
  shows "priority (h ! k) \<le> priority (h ! 0)"
  using assms(2)
proof (induction k rule: less_induct)
  case (less k)
  show ?case
  proof (cases "k = 0")
    case True
    then show ?thesis by simp
  next
    case False
    then have p: "(k - 1) div 2 < k" by arith
    have "priority (h ! k) \<le> priority (h ! ((k - 1) div 2))"
      using assms(1) False less.prems by (simp add: heap_upto_def)
    moreover have "priority (h ! ((k - 1) div 2)) \<le> priority (h ! 0)"
      using less.IH[OF p] p less.prems by simp
    ultimately show ?thesis by simp
  qed
qed

lemma heap_Init_Nil [simp]: "heap_Init [] = []"
  by (simp add: heap_Init_def Len_def)

lemma heap_ok_Nil [simp]: "heap_ok []"
  by (simp add: heap_ok_def heap_upto_def)

lemma heap_Push_length [simp]: "length (heap_Push h x) = Suc (length h)"
  by (simp add: heap_Push_def Push_def Len_def Let_def)

lemma heap_Push_mset:
  "mset (map key (heap_Push h x)) = add_mset (key x) (mset (map key h))"
proof -
  have "mset (map key (heap_Push h x)) = mset (map key (Push h x))"
    by (simp only: heap_Push_def Let_def Len_def) (rule mset_key_up, simp add: Push_def)
  then show ?thesis by (simp add: Push_def key_def)
qed

lemma heap_Push_ok:
  assumes "heap_ok h"
  shows "heap_ok (heap_Push h x)"
proof -
  let ?h = "Push h x"
  have len: "length ?h = Suc (length h)" by (simp add: Push_def)
  have "up_inv ?h (length h)"
    unfolding up_inv_def
  proof (intro conjI allI impI)
    show "length h < length ?h" using len by simp
  next
    fix k assume k: "0 < k \<and> k < length ?h \<and> k \<noteq> length h"
    then have kl: "k < length h" using len by simp
    then have "(k - 1) div 2 < length h" by simp
    then show "priority (?h ! k) \<le> priority (?h ! ((k - 1) div 2))"
      using assms kl k by (simp add: Push_def nth_append heap_ok_def heap_upto_def)
  next
    fix k assume k: "0 < k \<and> k < length ?h \<and> (k - 1) div 2 = length h \<and> 0 < length h"
    then have False using len by arith
    then show "priority (?h ! k) \<le> priority (?h ! ((length h - 1) div 2))" ..
  qed
  then have "heap_upto (up ?h (length h)) (length ?h)" by (rule up_heap)
  then show ?thesis by (simp add: heap_ok_def heap_Push_def Let_def Len_def len)
qed

lemma mset_key_split_last:
  "length xs = Suc n \<Longrightarrow> mset (map key xs) = add_mset (key (xs ! n)) (mset (map key (take n xs)))"
  by (cases xs rule: rev_cases) (auto simp: nth_append)

lemma heap_Pop_props:
  assumes ok: "heap_ok h" and ne: "h \<noteq> []" and pop: "heap_Pop h = (item, h')"
  shows "heap_ok h'"
    and "length h' = length h - 1"
    and "mset (map key h) = add_mset (key item) (mset (map key h'))"
    and "\<forall>x \<in> set h. priority x \<le> priority item"
proof -
  let ?n = "length h - 1"
  let ?h1 = "Swap h 0 ?n"
  let ?h2 = "down ?h1 0 ?n"
  have nl: "?n < length h" using ne by (cases h) auto
  have len2: "length ?h2 = Suc ?n" using nl by simp
  have item: "item = (?h2 ! ?n)\<lparr>index := - 1\<rparr>" and h': "h' = take ?n ?h2"
    using pop by (auto simp: heap_Pop_def Pop_def Let_def Len_def)
  have "down_inv ?h1 0 ?n"
    unfolding down_inv_def
  proof (intro conjI allI impI)
    show "?n \<le> length ?h1" by simp
  next
    fix k assume k: "0 < k \<and> k < ?n \<and> (k - 1) div 2 \<noteq> 0"
    then have "?h1 ! k = h ! k" by (intro nth_Swap_other) auto
    moreover have "?h1 ! ((k - 1) div 2) = h ! ((k - 1) div 2)"
      using k by (intro nth_Swap_other) auto
    moreover have "k < length h" using k by arith
    then have "priority (h ! k) \<le> priority (h ! ((k - 1) div 2))"
      using ok k unfolding heap_ok_def heap_upto_def by blast
    ultimately show "priority (?h1 ! k) \<le> priority (?h1 ! ((k - 1) div 2))" by simp
  next
    fix k assume "0 < k \<and> k < ?n \<and> (k - 1) div 2 = 0 \<and> (0::nat) < 0"
    then show "priority (?h1 ! k) \<le> priority (?h1 ! ((0 - 1) div 2))" by simp
  qed
  then have up2: "heap_upto ?h2 ?n" by (rule down_heap)
  show "heap_ok h'"
    unfolding heap_ok_def heap_upto_def
  proof (intro allI impI)
    fix k assume k: "0 < k \<and> k < length h'"
    then have kn: "k < ?n" by (simp add: h')
    then have pn: "(k - 1) div 2 < ?n" by arith
    have "priority (?h2 ! k) \<le> priority (?h2 ! ((k - 1) div 2))"
      using up2 k kn unfolding heap_upto_def by blast
    then show "priority (h' ! k) \<le> priority (h' ! ((k - 1) div 2))"
      using kn pn by (simp add: h')
  qed
  show "length h' = length h - 1" by (simp add: h')
  have last: "?h2 ! ?n = ?h1 ! ?n" by (rule nth_down_beyond) simp
  have hl: "0 < length h" using ne by simp
  have "key (?h1 ! ?n) = key (h ! 0)"
    using nl hl by (simp add: key_def Swap_def Let_def nth_list_update)
  then have "key (?h2 ! ?n) = key (h ! 0)" by (simp only: last)
  then have kitem: "key item = key (h ! 0)" by (simp add: item key_def)
  have "mset (map key ?h2) = add_mset (key (?h2 ! ?n)) (mset (map key (take ?n ?h2)))"
    using len2 by (rule mset_key_split_last)
  then have "mset (map key ?h2) = add_mset (key (?h2 ! ?n)) (mset (map key h'))"
    by (simp only: h')
  moreover have "key (?h2 ! ?n) = key item" by (simp add: item key_def)
  moreover have "mset (map key ?h2) = mset (map key h)"
  proof -
    have "mset (map key ?h2) = mset (map key ?h1)" by (rule mset_key_down) simp
    also have "\<dots> = mset (map key h)" using hl nl by (rule mset_key_Swap)
    finally show ?thesis .
  qed
  ultimately show "mset (map key h) = add_mset (key item) (mset (map key h'))" by simp
  have "heap_upto h (length h)" using ok by (simp add: heap_ok_def)
  then have "\<And>k. k < length h \<Longrightarrow> priority (h ! k) \<le> priority (h ! 0)"
    by (rule heap_root_max)
  moreover have "priority item = priority (h ! 0)" using kitem by (simp add: key_def)
  ultimately show "\<forall>x \<in> set h. priority x \<le> priority item"
    by (auto simp: in_set_conv_nth)
qed

lemma all_ok_New: "all_ok NewPriorityQueueWithRouting"
  by (simp add: all_ok_def NewPriorityQueueWithRouting_def)

lemma contents_New [simp]: "contents r NewPriorityQueueWithRouting = {#}"
  by (simp add: contents_def NewPriorityQueueWithRouting_def)

lemma Enqueue_ok: "all_ok pq \<Longrightarrow> all_ok (Enqueue r x pq)"
  by (auto simp: all_ok_def Enqueue_def Let_def heap_Push_ok split: option.splits)

lemma Enqueue_contents:
  "contents r' (Enqueue r x pq) =
     (if r' = r then add_mset (key x) (contents r pq) else contents r' pq)"
  using heap_Push_mset[of "[]" x] heap_Push_mset[of _ x]
  by (auto simp: contents_def Enqueue_def Let_def split: option.splits)

lemma Enqueue_Length:
  "Length r' (Enqueue r x pq) = (if r' = r then Suc (Length r pq) else Length r' pq)"
  by (auto simp: Length_def Len_def Enqueue_def Let_def split: option.splits)

lemma Dequeue_Returned:
  assumes "Dequeue r pq = (Returned it, pq')"
  obtains h h' where "queueMap pq r = Some h" "h \<noteq> []" "heap_Pop h = (it, h')"
    "pq' = pq\<lparr>queueMap := (queueMap pq)(r \<mapsto> h')\<rparr>"
  using assms
  by (auto simp: Dequeue_def Len_def Let_def split: option.splits if_splits prod.splits)

lemma Dequeue_progress:
  assumes "contents r pq \<noteq> {#}"
  shows "\<exists>it pq'. Dequeue r pq = (Returned it, pq')"
proof -
  from assms obtain h where h: "queueMap pq r = Some h" "h \<noteq> []"
    by (auto simp: contents_def split: option.splits)
  obtain it h' where "heap_Pop h = (it, h')" by (cases "heap_Pop h") auto
  then have "Dequeue r pq = (Returned it, pq\<lparr>queueMap := (queueMap pq)(r \<mapsto> h')\<rparr>)"
    using h by (simp add: Dequeue_def Len_def)
  then show ?thesis by blast
qed

lemma Dequeue_ok:
  assumes "all_ok pq" "Dequeue r pq = (Returned it, pq')"
  shows "all_ok pq'"
proof -
  from assms(2) obtain h h' where h: "queueMap pq r = Some h" "h \<noteq> []" "heap_Pop h = (it, h')"
    "pq' = pq\<lparr>queueMap := (queueMap pq)(r \<mapsto> h')\<rparr>" by (rule Dequeue_Returned)
  have "heap_ok h" using assms(1) h(1) by (simp add: all_ok_def)
  then have "heap_ok h'" using h(2,3) by (rule heap_Pop_props)
  then show ?thesis using assms(1) h(4) by (auto simp: all_ok_def)
qed

lemma Dequeue_contents:
  assumes "all_ok pq" "Dequeue r pq = (Returned it, pq')"
  shows "contents r pq = add_mset (key it) (contents r pq')"
    and "r' \<noteq> r \<Longrightarrow> contents r' pq' = contents r' pq"
    and "\<forall>k \<in># contents r pq. snd k \<le> priority it"
    and "Suc (Length r pq') = Length r pq"
    and "r' \<noteq> r \<Longrightarrow> Length r' pq' = Length r' pq"
proof -
  from assms(2) obtain h h' where h: "queueMap pq r = Some h" "h \<noteq> []" "heap_Pop h = (it, h')"
    "pq' = pq\<lparr>queueMap := (queueMap pq)(r \<mapsto> h')\<rparr>" by (rule Dequeue_Returned)
  have ok: "heap_ok h" using assms(1) h(1) by (simp add: all_ok_def)
  have "mset (map key h) = add_mset (key it) (mset (map key h'))"
    using ok h(2,3) by (rule heap_Pop_props)
  then show "contents r pq = add_mset (key it) (contents r pq')"
    using h(1,4) by (simp add: contents_def)
  show "r' \<noteq> r \<Longrightarrow> contents r' pq' = contents r' pq"
    using h(4) by (simp add: contents_def)
  have "\<forall>x \<in> set h. priority x \<le> priority it"
    using ok h(2,3) by (rule heap_Pop_props)
  then show "\<forall>k \<in># contents r pq. snd k \<le> priority it"
    using h(1) by (auto simp: contents_def key_def)
  have "length h' = length h - 1" using ok h(2,3) by (rule heap_Pop_props)
  then show "Suc (Length r pq') = Length r pq"
    using h(1,2,4) by (simp add: Length_def Len_def)
  show "r' \<noteq> r \<Longrightarrow> Length r' pq' = Length r' pq"
    using h(4) by (simp add: Length_def)
qed

lemma run_inv:
  "all_ok pq0 \<Longrightarrow> run cs pq0 = Some (out, pq) \<Longrightarrow>
   all_ok pq \<and> contents r pq + dequeued r out = contents r pq0 + enqueued r cs"
proof (induction cs pq0 arbitrary: out pq rule: run.induct)
  case (1 pq0)
  then show ?case by (simp add: dequeued_def)
next
  case (2 route item cs pq0)
  have ok: "all_ok (Enqueue route item pq0)" using "2.prems"(1) by (rule Enqueue_ok)
  have "run cs (Enqueue route item pq0) = Some (out, pq)" using "2.prems"(2) by simp
  from "2.IH"[OF ok this] show ?case by (simp add: Enqueue_contents)
next
  case (3 route cs pq0)
  from "3.prems"(2) obtain item pq1 out' where
    d: "Dequeue route pq0 = (Returned item, pq1)" and
    r: "run cs pq1 = Some (out', pq)" and o: "out = (route, item) # out'"
    by (auto split: prod.splits dequeue_result.splits option.splits)
  have ok1: "all_ok pq1" using "3.prems"(1) d by (rule Dequeue_ok)
  have ih: "all_ok pq \<and> contents r pq + dequeued r out' = contents r pq1 + enqueued r cs"
    using "3.IH"[OF d[symmetric] refl ok1 r] .
  show ?case
  proof (cases "r = route")
    case True
    have "contents route pq0 = add_mset (key item) (contents route pq1)"
      using "3.prems"(1) d by (rule Dequeue_contents)
    then show ?thesis using ih o True by (simp add: dequeued_def)
  next
    case False
    then have "contents r pq1 = contents r pq0"
      using Dequeue_contents(2)[OF "3.prems"(1) d] by simp
    then show ?thesis using ih o False by (simp add: dequeued_def)
  qed
qed

lemma run_Length:
  "all_ok pq0 \<Longrightarrow> run cs pq0 = Some (out, pq) \<Longrightarrow>
   Length r pq + count_deq r cs = Length r pq0 + count_enq r cs"
proof (induction cs pq0 arbitrary: out pq rule: run.induct)
  case (1 pq0)
  then show ?case by simp
next
  case (2 route item cs pq0)
  have ok: "all_ok (Enqueue route item pq0)" using "2.prems"(1) by (rule Enqueue_ok)
  have "run cs (Enqueue route item pq0) = Some (out, pq)" using "2.prems"(2) by simp
  from "2.IH"[OF ok this] show ?case by (simp add: Enqueue_Length)
next
  case (3 route cs pq0)
  from "3.prems"(2) obtain item pq1 out' where
    d: "Dequeue route pq0 = (Returned item, pq1)" and
    r: "run cs pq1 = Some (out', pq)"
    by (auto split: prod.splits dequeue_result.splits option.splits)
  have ok1: "all_ok pq1" using "3.prems"(1) d by (rule Dequeue_ok)
  have ih: "Length r pq + count_deq r cs = Length r pq1 + count_enq r cs"
    using "3.IH"[OF d[symmetric] refl ok1 r] .
  show ?case
  proof (cases "r = route")
    case True
    have "Suc (Length route pq1) = Length route pq0"
      using "3.prems"(1) d by (rule Dequeue_contents)
    then show ?thesis using ih True by simp
  next
    case False
    then have "Length r pq1 = Length r pq0"
      using Dequeue_contents(5)[OF "3.prems"(1) d] by simp
    then show ?thesis using ih False by simp
  qed
qed

section \<open>Reading a line from a reader\<close>

lemma connRead_concat:
  "connRead room chunks = (got, rest) \<Longrightarrow> got @ concat rest = concat chunks"
  by (auto simp: connRead_def split: list.splits if_splits)

lemma connRead_length:
  "connRead room chunks = (got, rest) \<Longrightarrow> length got \<le> room"
  by (auto simp: connRead_def split: list.splits)

lemma stream_fill: "stream (fill b) = stream b"
  by (auto simp: fill_def stream_def Let_def dest: connRead_concat split: prod.splits)

lemma buf_fill_bound: "length (buf b) \<le> bufSize \<Longrightarrow> length (buf (fill b)) \<le> bufSize"
  by (auto simp: fill_def Let_def dest: connRead_length split: prod.splits)

lemma split_unique:
  "p @ x # q = l @ x # r \<Longrightarrow> x \<notin> set p \<Longrightarrow> x \<notin> set l \<Longrightarrow> p = l \<and> q = r"
proof (induction p arbitrary: l)
  case Nil
  then show ?case by (cases l) auto
next
  case (Cons a p)
  then show ?case by (cases l) auto
qed

lemma first_LF_split:
  assumes "xs @ ys = l @ LF # rest" "LF \<notin> set l" "LF \<in> set xs"
  shows "\<exists>r. xs = l @ LF # r \<and> rest = r @ ys"
proof -
  from assms(3) obtain p q where pq: "xs = p @ LF # q" "LF \<notin> set p"
    by (meson split_list_first)
  then have "p @ LF # (q @ ys) = l @ LF # rest" using assms(1) by simp
  then have "p = l \<and> q @ ys = rest"
    using pq(2) assms(2) by (intro split_unique) auto
  then show ?thesis using pq(1) by auto
qed

lemma no_LF_prefix:
  assumes "xs @ ys = l @ LF # rest" "LF \<notin> set xs"
  shows "length xs \<le> length l"
proof (rule ccontr)
  assume "\<not> length xs \<le> length l"
  then have "length l < length xs" by simp
  then have "xs ! length l = (xs @ ys) ! length l" by (simp add: nth_append)
  also have "\<dots> = LF" using assms(1) by simp
  finally have "LF \<in> set xs" using \<open>length l < length xs\<close> by (metis nth_mem)
  then show False using assms(2) by simp
qed

lemma ReadSlice_line:
  assumes "stream b = l @ LF # rest" "LF \<notin> set l" "length l < bufSize"
  shows "fst (ReadSlice b) = (l @ [LF], None) \<and> stream (snd (ReadSlice b)) = rest"
  using assms
proof (induction b rule: ReadSlice.induct)
  case (1 b)
  show ?case
  proof (cases "LF \<in> set (buf b)")
    case True
    then obtain r where r: "buf b = l @ LF # r" "rest = r @ concat (src b)"
      using first_LF_split[of "buf b" "concat (src b)" l rest] "1.prems" by (auto simp: stream_def)
    have nl: "\<forall>x \<in> set l. x \<noteq> LF" using "1.prems"(2) by auto
    have "takeWhile (\<lambda>c. c \<noteq> LF) (buf b) = l" using r(1) nl
      by (simp add: takeWhile_append2)
    moreover have "dropWhile (\<lambda>c. c \<noteq> LF) (buf b) = LF # r" using r(1) nl
      by (simp add: dropWhile_append2)
    ultimately show ?thesis using True r(2)
      by (subst (1 2) ReadSlice.simps) (simp add: stream_def)
  next
    case False
    have le: "length (buf b) \<le> length l"
      using no_LF_prefix[of "buf b" "concat (src b)" l rest] "1.prems"(1) False
      by (simp add: stream_def)
    then have nfull: "\<not> length (buf b) \<ge> bufSize" using "1.prems"(3) by simp
    have nsrc: "src b \<noteq> []"
    proof
      assume "src b = []"
      then have "buf b = l @ LF # rest" using "1.prems"(1) by (simp add: stream_def)
      then show False using False by simp
    qed
    have "fst (ReadSlice (fill b)) = (l @ [LF], None) \<and> stream (snd (ReadSlice (fill b))) = rest"
      using False nfull nsrc "1.prems" by (intro "1.IH") (simp_all add: stream_fill)
    then show ?thesis using False nfull nsrc
      by (subst (1 2) ReadSlice.simps) simp
  qed
qed

lemma ReadLine_CRLF:
  assumes "stream b = l @ CRLF @ rest" "LF \<notin> set l" "length l + 1 < bufSize"
  shows "fst (ReadLine b) = Inr l"
proof -
  have s: "stream b = (l @ [CR]) @ LF # rest" using assms(1) by (simp add: CRLF_def)
  have n: "LF \<notin> set (l @ [CR])" using assms(2) by (simp add: CR_def LF_def)
  have "fst (ReadSlice b) = ((l @ [CR]) @ [LF], None)"
    using ReadSlice_line[OF s n] assms(3) by simp
  then obtain b1 where "ReadSlice b = ((l @ [CR, LF], None), b1)"
    by (cases "ReadSlice b") auto
  then show ?thesis
    by (simp add: ReadLine_def Let_def nth_append)
qed

lemma ParseUint_loop_digits:
  "ParseUint_loop s n = Inr v \<Longrightarrow> \<forall>c \<in> set s. is_digit c"
  by (induction s n rule: ParseUint_loop.induct) (auto simp: Let_def split: if_splits)

lemma Atoi_no_LF:
  assumes "Atoi s = Inr v"
  shows "LF \<notin> set s"
proof
  assume lf: "LF \<in> set s"
  have nd: "\<not> is_digit LF" by (simp add: is_digit_def LF_def)
  have ns: "LF \<noteq> CHR ''+''" "LF \<noteq> CHR ''-''" by (simp_all add: LF_def)
  from assms obtain un where
    u: "ParseUint (if hd s = CHR ''+'' \<or> hd s = CHR ''-'' then tl s else s) = Inr un" and ne: "s \<noteq> []"
    by (auto simp: Atoi_def ParseInt_as_def Let_def split: if_splits sum.splits)
  let ?s1 = "if hd s = CHR ''+'' \<or> hd s = CHR ''-'' then tl s else s"
  have "\<forall>c \<in> set ?s1. is_digit c"
    using u by (auto simp: ParseUint_def dest: ParseUint_loop_digits split: if_splits)
  moreover have "LF \<in> set ?s1"
    using lf ne ns by (cases s) auto
  ultimately show False using nd by blast
qed

section \<open>A connection at end of file\<close>

lemma serveConn_at_EOF:
  "conn s = [] \<Longrightarrow> fst (serveConn lower n s) = OutOfFuel"
proof (induction n arbitrary: s)
  case 0
  then show ?case by simp
next
  case (Suc n)
  have p: "Parse (NewReader []) = (Err EOF, NewReader [])"
    by code_simp
  have "ReadFrom lower (conn s) = (Err EOF, [])"
    using Suc.prems p by (simp add: ReadFrom_def NewReader_def)
  then have "serve lower (Suc n) s = (ServeReturns EOF, s\<lparr>conn := []\<rparr>)" by simp
  then show ?case using Suc.IH[of "s\<lparr>conn := [], written := written s @ [WriteError EOF]\<rparr>"]
    by simp
qed

section \<open>Properties of the routed queue\<close>

text \<open>
  C1 (amended). After every serialized history on a fresh queue, a \<open>Dequeue\<close> on a
  route that still holds an item returns: it hands out an item that was enqueued to
  the route and not dequeued since, and no such item has a higher priority. Nothing is
  promised about the order among items of equal priority: \<open>Less\<close> compares
  priorities only.
\<close>

theorem C1_Dequeue_returns_highest_priority:
  assumes "run cs NewPriorityQueueWithRouting = Some (out, pq)"
      and "enqueued route cs - dequeued route out \<noteq> {#}"
  shows "\<exists>item pq'. Dequeue route pq = (Returned item, pq') \<and>
           key item \<in># enqueued route cs - dequeued route out \<and>
           (\<forall>k \<in># enqueued route cs - dequeued route out. snd k \<le> priority item)"
proof -
  have inv: "all_ok pq \<and> contents route pq + dequeued route out =
               contents route NewPriorityQueueWithRouting + enqueued route cs"
    using all_ok_New assms(1) by (rule run_inv)
  then have c: "contents route pq = enqueued route cs - dequeued route out"
    by (metis add_diff_cancel_right' add.left_neutral contents_New)
  then have "contents route pq \<noteq> {#}" using assms(2) by simp
  then obtain item pq' where d: "Dequeue route pq = (Returned item, pq')"
    using Dequeue_progress by blast
  have "contents route pq = add_mset (key item) (contents route pq')"
    using inv d by (intro Dequeue_contents(1)) auto
  then have m: "key item \<in># enqueued route cs - dequeued route out"
    using c by (metis union_single_eq_member)
  have "\<forall>k \<in># contents route pq. snd k \<le> priority item"
    using inv d by (intro Dequeue_contents(3)) auto
  then have "\<forall>k \<in># enqueued route cs - dequeued route out. snd k \<le> priority item"
    using c by simp
  then show ?thesis using d m by blast
qed

theorem C1_Dequeue_returns_highest_priority_witness:
  "\<exists>pq item pq'.
      run [Enq ''r'' \<lparr>ivalue = ''a'', priority = 1, index = 0\<rparr>,
           Enq ''r'' \<lparr>ivalue = ''b'', priority = 3, index = 0\<rparr>,
           Enq ''r'' \<lparr>ivalue = ''c'', priority = 2, index = 0\<rparr>]
        NewPriorityQueueWithRouting = Some ([], pq) \<and>
      Dequeue ''r'' pq = (Returned item, pq') \<and>
      key item \<in># enqueued ''r''
           [Enq ''r'' \<lparr>ivalue = ''a'', priority = 1, index = 0\<rparr>,
            Enq ''r'' \<lparr>ivalue = ''b'', priority = 3, index = 0\<rparr>,
            Enq ''r'' \<lparr>ivalue = ''c'', priority = 2, index = 0\<rparr>] - dequeued ''r'' [] \<and>
      (''a'', 1) \<in># enqueued ''r''
           [Enq ''r'' \<lparr>ivalue = ''a'', priority = 1, index = 0\<rparr>,
            Enq ''r'' \<lparr>ivalue = ''b'', priority = 3, index = 0\<rparr>,
            Enq ''r'' \<lparr>ivalue = ''c'', priority = 2, index = 0\<rparr>] - dequeued ''r'' []"
proof -
  let ?cs = "[Enq ''r'' \<lparr>ivalue = ''a'', priority = 1, index = 0\<rparr>,
              Enq ''r'' \<lparr>ivalue = ''b'', priority = 3, index = 0\<rparr>,
              Enq ''r'' \<lparr>ivalue = ''c'', priority = 2, index = 0\<rparr>]"
  let ?pq = "Enqueue ''r'' \<lparr>ivalue = ''c'', priority = 2, index = 0\<rparr>
              (Enqueue ''r'' \<lparr>ivalue = ''b'', priority = 3, index = 0\<rparr>
                (Enqueue ''r'' \<lparr>ivalue = ''a'', priority = 1, index = 0\<rparr>
                  NewPriorityQueueWithRouting))"
  have r: "run ?cs NewPriorityQueueWithRouting = Some ([], ?pq)" by simp
  have a: "(''a'', 1) \<in># enqueued ''r'' ?cs - dequeued ''r'' []"
    by (simp add: key_def dequeued_def)
  then have n: "enqueued ''r'' ?cs - dequeued ''r'' [] \<noteq> {#}" by auto
  show ?thesis
    using C1_Dequeue_returns_highest_priority[OF r n] r a by blast
qed

theorem C1_fifo_tie_break_counterexample:
  "returned_values
     [Enq ''r'' \<lparr>ivalue = ''a'', priority = 1, index = 0\<rparr>,
      Enq ''r'' \<lparr>ivalue = ''b'', priority = 1, index = 0\<rparr>,
      Enq ''r'' \<lparr>ivalue = ''c'', priority = 1, index = 0\<rparr>,
      Deq ''r'', Deq ''r'', Deq ''r''] = Some [''a'', ''c'', ''b'']"
  by code_simp

text \<open>
  C8. \<open>Length\<close> of a route on a fresh queue is 0, and after a serialized history on a
  fresh queue it is the number of \<open>Enqueue\<close> calls on the route minus the number of
  \<open>Dequeue\<close> calls on it, which is never the larger.
\<close>

theorem C8_Length_counts:
  assumes "run cs NewPriorityQueueWithRouting = Some (out, pq)"
  shows "Length route NewPriorityQueueWithRouting = 0 \<and>
         count_deq route cs \<le> count_enq route cs \<and>
         Length route pq = count_enq route cs - count_deq route cs"
proof -
  have "Length route pq + count_deq route cs =
        Length route NewPriorityQueueWithRouting + count_enq route cs"
    using all_ok_New assms by (rule run_Length)
  moreover have "Length route NewPriorityQueueWithRouting = 0"
    by (simp add: Length_def NewPriorityQueueWithRouting_def)
  ultimately show ?thesis by simp
qed

theorem C8_Length_counts_witness:
  "\<exists>out pq. run [Enq ''r'' \<lparr>ivalue = ''a'', priority = 1, index = 0\<rparr>,
                  Enq ''s'' \<lparr>ivalue = ''x'', priority = 7, index = 0\<rparr>,
                  Enq ''r'' \<lparr>ivalue = ''b'', priority = 3, index = 0\<rparr>,
                  Deq ''r'']
               NewPriorityQueueWithRouting = Some (out, pq) \<and>
             Length ''r'' pq = 1 \<and> Length ''s'' pq = 1 \<and> Length ''t'' pq = 0"
proof -
  let ?cs = "[Enq ''r'' \<lparr>ivalue = ''a'', priority = 1, index = 0\<rparr>,
              Enq ''s'' \<lparr>ivalue = ''x'', priority = 7, index = 0\<rparr>,
              Enq ''r'' \<lparr>ivalue = ''b'', priority = 3, index = 0\<rparr>,
              Deq ''r'']"
  have "returned_values ?cs = Some [''b'']" by code_simp
  then obtain out pq where r: "run ?cs NewPriorityQueueWithRouting = Some (out, pq)"
    by (auto simp: returned_values_def split: option.splits)
  have "Length ''r'' pq = 1" "Length ''s'' pq = 1" "Length ''t'' pq = 0"
    using C8_Length_counts[OF r, of "''r''"] C8_Length_counts[OF r, of "''s''"]
      C8_Length_counts[OF r, of "''t''"] by simp_all
  then show ?thesis using r by blast
qed

text \<open>
  C10. An \<open>Enqueue\<close> or a \<open>Dequeue\<close> on a route leaves the heap of every other route
  as it was, whether the \<open>Dequeue\<close> returns an item or has to wait.
\<close>

theorem C10_other_routes_untouched:
  "r' \<noteq> r \<Longrightarrow>
   queueMap (Enqueue r item pq) r' = queueMap pq r' \<and>
   queueMap (snd (Dequeue r pq)) r' = queueMap pq r'"
  by (auto simp: Enqueue_def Dequeue_def Let_def split: option.splits prod.splits)

theorem C10_other_routes_untouched_witness:
  "''s'' \<noteq> ''r'' \<and>
   queueMap (Enqueue ''r'' \<lparr>ivalue = ''b'', priority = 3, index = 0\<rparr>
      (Enqueue ''s'' \<lparr>ivalue = ''a'', priority = 1, index = 0\<rparr> NewPriorityQueueWithRouting)) ''s''
   = queueMap (Enqueue ''s'' \<lparr>ivalue = ''a'', priority = 1, index = 0\<rparr> NewPriorityQueueWithRouting) ''s'' \<and>
   queueMap (snd (Dequeue ''r''
      (Enqueue ''s'' \<lparr>ivalue = ''a'', priority = 1, index = 0\<rparr> NewPriorityQueueWithRouting))) ''s''
   = queueMap (Enqueue ''s'' \<lparr>ivalue = ''a'', priority = 1, index = 0\<rparr> NewPriorityQueueWithRouting) ''s''"
proof -
  have ne: "''s'' \<noteq> ''r''" by simp
  show ?thesis using ne C10_other_routes_untouched[OF ne] by blast
qed

section \<open>Properties of the protocol, the commands and the session\<close>

text \<open>
  C2 (the code does otherwise). The claim wants the session closed after a framing
  error. \<open>serveConn\<close> leaves its loop on \<open>ErrQuit\<close> only: on a connection that
  delivers a line that is no frame header, then a \<open>ping\<close> and a \<open>quit\<close> request,
  it writes the error reply, goes on reading, answers the \<open>ping\<close> and closes on the
  \<open>quit\<close>; and on a connection that delivers that line and then ends, it never
  closes, whatever fuel it is given.
\<close>

theorem C2_session_goes_on_after_framing_error:
  "fst (serveConn ToLower_ascii 4
          (new_session [''hello'' @ CRLF,
                        ''*1'' @ CRLF @ ''$4'' @ CRLF @ ''ping'' @ CRLF,
                        ''*1'' @ CRLF @ ''$4'' @ CRLF @ ''quit'' @ CRLF])) = Closed \<and>
   written (snd (serveConn ToLower_ascii 4
          (new_session [''hello'' @ CRLF,
                        ''*1'' @ CRLF @ ''$4'' @ CRLF @ ''ping'' @ CRLF,
                        ''*1'' @ CRLF @ ''$4'' @ CRLF @ ''quit'' @ CRLF])))
     = [WriteError ErrInvalidSyntax, WriteStatus Pong, Write CRLF] \<and>
   fst (serveConn lower n (new_session [''hello'' @ CRLF])) \<noteq> Closed"
proof -
  have a: "fst (serveConn ToLower_ascii 4
          (new_session [''hello'' @ CRLF,
                        ''*1'' @ CRLF @ ''$4'' @ CRLF @ ''ping'' @ CRLF,
                        ''*1'' @ CRLF @ ''$4'' @ CRLF @ ''quit'' @ CRLF])) = Closed"
    by code_simp
  have b: "written (snd (serveConn ToLower_ascii 4
          (new_session [''hello'' @ CRLF,
                        ''*1'' @ CRLF @ ''$4'' @ CRLF @ ''ping'' @ CRLF,
                        ''*1'' @ CRLF @ ''$4'' @ CRLF @ ''quit'' @ CRLF])))
     = [WriteError ErrInvalidSyntax, WriteStatus Pong, Write CRLF]"
    by code_simp
  have c: "fst (serveConn lower n (new_session [''hello'' @ CRLF])) \<noteq> Closed"
  proof (cases n)
    case 0
    then show ?thesis by simp
  next
    case (Suc m)
    have p: "Parse (NewReader [''hello'' @ CRLF]) = (Err ErrInvalidSyntax, NewReader [])"
      by code_simp
    have "ReadFrom lower [''hello'' @ CRLF] = (Err ErrInvalidSyntax, [])"
      using p by (simp add: ReadFrom_def NewReader_def)
    then have "serve lower (Suc m) (new_session [''hello'' @ CRLF])
                 = (ServeReturns ErrInvalidSyntax, (new_session [''hello'' @ CRLF])\<lparr>conn := []\<rparr>)"
      by (simp add: new_session_def)
    then have "fst (serveConn lower (Suc m) (new_session [''hello'' @ CRLF])) = OutOfFuel"
      using serveConn_at_EOF[of "(new_session [''hello'' @ CRLF])\<lparr>conn := [], written := [WriteError ErrInvalidSyntax]\<rparr>" lower m]
      by (simp add: new_session_def)
    then show ?thesis using Suc by simp
  qed
  show ?thesis using a b c by blast
qed

text \<open>
  C3 (the code does otherwise). The claim wants an array reply to start with
  \<open>*<count>\<close>. \<open>WriteArray\<close> writes the count with \<open>WriteInt64\<close>, so the
  one-element array \<open>[a]\<close> is encoded with the integer marker \<open>:\<close> in front of the
  count, followed by the bulk string.
\<close>

theorem C3_array_header_is_integer_marker:
  "pb_WriteArray [] [''a''] = '':1'' @ CRLF @ ''$1'' @ CRLF @ ''a'' @ CRLF \<and>
   pb_WriteArray [] [''a''] \<noteq> ''*1'' @ CRLF @ ''$1'' @ CRLF @ ''a'' @ CRLF"
  by code_simp

text \<open>
  C4 (the code does otherwise). The claim wants a framing error for a negative
  bulk-string length. On the request \<open>*1 $-1\<close> the length parses as \<open>-1\<close> and
  \<open>readString\<close> allocates a buffer of that length, which panics: \<open>Parse\<close> returns
  nothing and the session crashes.
\<close>

theorem C4_negative_bulk_length_panics:
  "fst (Parse (NewReader [''*1'' @ CRLF @ ''$-1'' @ CRLF])) = Panic \<and>
   fst (serveConn ToLower_ascii 2 (new_session [''*1'' @ CRLF @ ''$-1'' @ CRLF])) = Crashed"
  by code_simp

text \<open>
  C5 (the code does otherwise). The claim wants the name \<open>command\<close> to resolve
  through the registry. \<open>init\<close> registers no constructor under that name, so the
  request \<open>command\<close> without arguments is answered with the unknown-command error.
\<close>

theorem C5_command_is_not_registered:
  "commandLibraries ''command'' = None \<and>
   fst (ReadFrom ToLower_ascii [''*1'' @ CRLF @ ''$7'' @ CRLF @ ''command'' @ CRLF])
     = Err (wrongCommandError ''command'' []) \<and>
   pb_WriteError [] (wrongCommandError_Error ''command'' [])
     = ''-ERR unknown command '' @ [CHR 0x27] @ ''command'' @ [CHR 0x27] @ CRLF"
proof -
  have a: "commandLibraries ''command'' = None" by (simp add: commandLibraries_def)
  have b: "fst (ReadFrom ToLower_ascii [''*1'' @ CRLF @ ''$7'' @ CRLF @ ''command'' @ CRLF])
     = Err (wrongCommandError ''command'' [])" by code_simp
  have c: "pb_WriteError [] (wrongCommandError_Error ''command'' [])
     = ''-ERR unknown command '' @ [CHR 0x27] @ ''command'' @ [CHR 0x27] @ CRLF" by code_simp
  show ?thesis using a b c by blast
qed

text \<open>
  C6 (the code does otherwise). The claim wants the condition variable of a route
  built on the lock that guards its heap, and no wake-up lost. A \<open>Dequeue\<close> on a
  fresh route builds the condition variable on a mutex of its own and releases
  \<open>queueLock\<close> before it waits. In the schedule below thread 0 (\<open>Dequeue\<close>) finds
  the route empty and releases \<open>queueLock\<close>, thread 1 (\<open>Enqueue\<close>) runs from start to
  end, and thread 0 then enters \<open>Wait\<close>: the route holds one item, its condition
  variable is on the private mutex, thread 0 is parked and neither thread can move.
\<close>

theorem C6_lost_wakeup:
  "observe ''r'' (exec [0, 0, 0, 1, 1, 1, 0, 0]
      (start (Deq_Lock ''r'') (Enq_Lock ''r'' \<lparr>ivalue = ''x'', priority = 1, index = 0\<rparr>)))
   = Some (Deq_Parked ''r'', Done None, 1, Some FreshMutex, True, True)"
  by code_simp

text \<open>
  C7. When the next request on a connection parses and then fails validation (a wrong
  number of arguments for its command, or a \<open>push\<close> with three arguments whose
  priority \<open>ParseInt\<close> rejects), \<open>serve\<close> returns an error, and the session it
  leaves differs from the one it found only by the input consumed: nothing was written
  and the routed queue is the same.
\<close>

theorem C7_invalid_request_no_side_effect:
  assumes "Parse (NewReader (conn s)) = (Ok (name, args), p)"
      and "wrong_arity (lower name) (length args) \<or>
           (lower name = ''push'' \<and> length args = 3 \<and> ParseInt (args ! 2) = Inl e)"
  shows "\<exists>err. serve lower (Suc n) s = (ServeReturns err, s\<lparr>conn := src p\<rparr>)"
  using assms
  by (auto simp: wrong_arity_def ReadFrom_def construct_def commandLibraries_def
        NewPingCommand_def NewEchoCommand_def NewPushCommand_def NewPopCommand_def
        NewLengthCommand_def NewQuitCommand_def)

theorem C7_invalid_request_no_side_effect_witness:
  "\<exists>err. serve ToLower_ascii (Suc 0)
            (new_session [''*4'' @ CRLF @ ''$4'' @ CRLF @ ''PUSH'' @ CRLF @ ''$1'' @ CRLF @ ''q'' @ CRLF @
                          ''$1'' @ CRLF @ ''v'' @ CRLF @ ''$4'' @ CRLF @ ''high'' @ CRLF])
          = (ServeReturns err, new_session [])"
proof -
  let ?c = "[''*4'' @ CRLF @ ''$4'' @ CRLF @ ''PUSH'' @ CRLF @ ''$1'' @ CRLF @ ''q'' @ CRLF @
             ''$1'' @ CRLF @ ''v'' @ CRLF @ ''$4'' @ CRLF @ ''high'' @ CRLF]"
  have "Parse (NewReader ?c) = (Ok (''PUSH'', [''q'', ''v'', ''high'']), \<lparr>buf = [], src = []\<rparr>)"
    by code_simp
  then have p: "Parse (NewReader (conn (new_session ?c)))
                  = (Ok (''PUSH'', [''q'', ''v'', ''high'']), \<lparr>buf = [], src = []\<rparr>)"
    by (simp add: new_session_def)
  have l: "ToLower_ascii ''PUSH'' = ''push''" by code_simp
  have i: "ParseInt ([''q'', ''v'', ''high''] ! 2) = Inl (NumError ''ParseInt'' ''high'' ErrSyntax)"
    by code_simp
  have v: "wrong_arity (ToLower_ascii ''PUSH'') (length [''q'', ''v'', ''high'']) \<or>
           (ToLower_ascii ''PUSH'' = ''push'' \<and> length [''q'', ''v'', ''high''] = 3 \<and>
            ParseInt ([''q'', ''v'', ''high''] ! 2) = Inl (NumError ''ParseInt'' ''high'' ErrSyntax))"
    using l i by simp
  have "(new_session ?c)\<lparr>conn := src \<lparr>buf = [], src = []\<rparr>\<rparr> = new_session []"
    by (simp add: new_session_def)
  then show ?thesis
    using C7_invalid_request_no_side_effect[where lower = ToLower_ascii and n = 0, OF p v] by simp
qed

text \<open>
  C9. On every connection whose bytes, however they are cut into chunks, start with
  \<open>*\<close>, a number text that \<open>Atoi\<close> reads as 0, and CR LF (the line fitting the
  reader's buffer), \<open>Parse\<close> returns \<open>ErrInvalidSyntax\<close>.
\<close>

theorem C9_empty_array_is_invalid_syntax:
  assumes "concat chunks = CHR ''*'' # ds @ CRLF @ rest"
      and "length ds + 2 < bufSize"
      and "Atoi ds = Inr 0"
  shows "fst (Parse (NewReader chunks)) = Err ErrInvalidSyntax"
proof -
  let ?l = "CHR ''*'' # ds"
  have lf: "LF \<notin> set ?l" using Atoi_no_LF[OF assms(3)] by (simp add: LF_def)
  have "stream (NewReader chunks) = ?l @ CRLF @ rest"
    using assms(1) by (simp add: stream_def NewReader_def)
  then have "fst (ReadLine (NewReader chunks)) = Inr ?l"
    using lf assms(2) by (intro ReadLine_CRLF) auto
  then obtain p1 where "ReadLine (NewReader chunks) = (Inr ?l, p1)"
    by (cases "ReadLine (NewReader chunks)") auto
  then have "readArrayLength (NewReader chunks) = (parseInt ds, p1)"
    by (simp add: readArrayLength_def readLine_def)
  moreover have "parseInt ds = Inr 0"
    using assms(3) by (auto simp: parseInt_def Atoi_def ParseInt_as_def)
  ultimately show ?thesis by (simp add: Parse_def)
qed

theorem C9_empty_array_is_invalid_syntax_witness:
  "fst (Parse (NewReader [''*0'' @ CRLF @ ''$4'', CRLF @ ''ping'' @ CRLF])) = Err ErrInvalidSyntax"
proof -
  have c: "concat [''*0'' @ CRLF @ ''$4'', CRLF @ ''ping'' @ CRLF]
             = CHR ''*'' # ''0'' @ CRLF @ (''$4'' @ CRLF @ ''ping'' @ CRLF)" by simp
  have l: "length ''0'' + 2 < bufSize" by (simp add: bufSize_def)
  have a: "Atoi ''0'' = Inr 0" by code_simp
  show ?thesis using C9_empty_array_is_invalid_syntax[OF c l a] .
qed

end
